theory Spec2Isabelle
  imports Complex_Main "HOL-Library.Word" "HOL-Library.Char_ord" "HOL-Library.List_Lexorder"
begin

section \<open>Data model\<close>

text \<open>
  The script \<^verbatim>\<open>app.py\<close> loads a wide table (one row per campaign day, parallel
  Facebook and AdWords columns), reshapes it to a long table, aggregates per platform,
  filters by date and platform, and prints highlighted comparisons.

  Integer columns of a pandas frame are \<^verbatim>\<open>int64\<close>: sums wrap around, and a value is
  read as a signed number (\<open>sint\<close>). Float columns hold finite doubles, which are
  rational numbers; they are modelled by \<open>rat\<close>, and the float aggregate of pandas
  that the script calls (\<^verbatim>\<open>mean().round(2)\<close>) is a parameter of the definitions that
  use it. Missing cells (NaN) are not part of the model. A date is the timestamp that
  \<^verbatim>\<open>pd.to_datetime\<close> yields, an integer count of ticks.
\<close>

type_synonym int64 = "64 word"
type_synonym timestamp = int

record campaign =
  date_of_campaign :: timestamp
  facebook_ad_views :: int64
  facebook_ad_clicks :: int64
  facebook_ad_conversions :: int64
  facebook_cost_per_ad :: rat
  facebook_ctr :: rat
  facebook_conversion_rate :: rat
  facebook_cost_per_click :: rat
  adword_ad_views :: int64
  adword_ad_clicks :: int64
  adword_ad_conversions :: int64
  adword_cost_per_ad :: rat
  adword_ctr :: rat
  adword_conversion_rate :: rat
  adword_cost_per_click :: rat

text \<open>
  The loaded frame \<^verbatim>\<open>df\<close>: the column labels of its header and its rows. A row's value
  for a label that the header lacks is never read: the selection fails first.
\<close>

record dataframe =
  df_columns :: "string list"
  df_rows :: "campaign list"

text \<open>A row of the long table, with the columns in the order of lines 30 to 33.\<close>

record observation =
  date :: timestamp
  views :: int64
  clicks :: int64
  conversions :: int64
  cost_per_ad :: rat
  ctr :: rat
  conversion_rate :: rat
  cost_per_click :: rat
  platform :: string

text \<open>
  Selecting labels that are not in the header raises \<^verbatim>\<open>KeyError\<close>, naming them.
  Taking the mean of a column whose cells are not numbers raises \<^verbatim>\<open>TypeError\<close>.
\<close>

datatype error = KeyError "string list" | TypeError

section \<open>Step 2: reshape\<close>

definition facebook_columns :: "string list" where
  "facebook_columns =
     [''date_of_campaign'', ''facebook_ad_views'', ''facebook_ad_clicks'',
      ''facebook_ad_conversions'', ''facebook_cost_per_ad'',
      ''facebook_ctr'', ''facebook_conversion_rate'', ''facebook_cost_per_click'']"

definition adwords_columns :: "string list" where
  "adwords_columns =
     [''date_of_campaign'', ''adword_ad_views'', ''adword_ad_clicks'',
      ''adword_ad_conversions'', ''adword_cost_per_ad'',
      ''adword_ctr'', ''adword_conversion_rate'', ''adword_cost_per_click'']"

text \<open>\<^verbatim>\<open>df[[...]]\<close>: every label must be in the header.\<close>

definition select_columns :: "string list \<Rightarrow> dataframe \<Rightarrow> error + campaign list" where
  "select_columns names df =
     (let missing = filter (\<lambda>c. c \<notin> set (df_columns df)) names
      in if missing = [] then Inr (df_rows df) else Inl (KeyError missing))"

text \<open>
  Lines 24 to 33: the eight selected columns, the constant column \<^verbatim>\<open>platform\<close>, and
  the positional renaming.
\<close>

definition facebook_row :: "campaign \<Rightarrow> observation" where
  "facebook_row r =
     \<lparr>date = date_of_campaign r, views = facebook_ad_views r, clicks = facebook_ad_clicks r,
      conversions = facebook_ad_conversions r, cost_per_ad = facebook_cost_per_ad r,
      ctr = facebook_ctr r, conversion_rate = facebook_conversion_rate r,
      cost_per_click = facebook_cost_per_click r, platform = ''Facebook''\<rparr>"

definition facebook :: "dataframe \<Rightarrow> error + observation list" where
  "facebook df =
     (case select_columns facebook_columns df of
        Inl e \<Rightarrow> Inl e
      | Inr rs \<Rightarrow> Inr (map facebook_row rs))"

text \<open>Lines 36 to 42.\<close>

definition adwords_row :: "campaign \<Rightarrow> observation" where
  "adwords_row r =
     \<lparr>date = date_of_campaign r, views = adword_ad_views r, clicks = adword_ad_clicks r,
      conversions = adword_ad_conversions r, cost_per_ad = adword_cost_per_ad r,
      ctr = adword_ctr r, conversion_rate = adword_conversion_rate r,
      cost_per_click = adword_cost_per_click r, platform = ''AdWords''\<rparr>"

definition adwords :: "dataframe \<Rightarrow> error + observation list" where
  "adwords df =
     (case select_columns adwords_columns df of
        Inl e \<Rightarrow> Inl e
      | Inr rs \<Rightarrow> Inr (map adwords_row rs))"

text \<open>Line 45: \<^verbatim>\<open>pd.concat([facebook, adwords], ignore_index=True)\<close>.\<close>

definition df_long :: "dataframe \<Rightarrow> error + observation list" where
  "df_long df =
     (case facebook df of
        Inl e \<Rightarrow> Inl e
      | Inr fb \<Rightarrow>
          (case adwords df of
             Inl e \<Rightarrow> Inl e
           | Inr aw \<Rightarrow> Inr (fb @ aw)))"

section \<open>Steps 3 and 6: grouped aggregates\<close>

text \<open>
  \<^verbatim>\<open>frame.groupby("platform")[col].agg()\<close>: a series indexed by the platforms that occur
  in the frame; a platform with no row has no entry.
\<close>

definition groupby_platform ::
    "(observation \<Rightarrow> 'a) \<Rightarrow> ('a list \<Rightarrow> 'b) \<Rightarrow> observation list \<Rightarrow> (string \<rightharpoonup> 'b)" where
  "groupby_platform col agg obs =
     (\<lambda>p. if p \<in> set (map platform obs)
          then Some (agg (map col (filter (\<lambda>ob. platform ob = p) obs)))
          else None)"

text \<open>
  The column \<^verbatim>\<open>views_sum\<close> of \<^verbatim>\<open>platform_summary\<close> (lines 56 to 66); \<^verbatim>\<open>round(2)\<close>
  leaves an integer column as it is.
\<close>

definition platform_summary_views_sum :: "observation list \<Rightarrow> (string \<rightharpoonup> int64)" where
  "platform_summary_views_sum obs = groupby_platform views sum_list obs"

text \<open>Lines 114 to 118: the rows within the two dates and of a selected platform.\<close>

definition filtered_data ::
    "observation list \<Rightarrow> timestamp \<Rightarrow> timestamp \<Rightarrow> string list \<Rightarrow> observation list" where
  "filtered_data obs start_date end_date platform_options =
     filter (\<lambda>ob. start_date \<le> date ob \<and> date ob \<le> end_date \<and>
                  platform ob \<in> set platform_options) obs"

text \<open>
  Lines 134 to 139. The parameter \<open>mean_round2\<close> stands for pandas'
  \<^verbatim>\<open>mean().round(2)\<close> on a group of doubles.
\<close>

definition total_views :: "observation list \<Rightarrow> (string \<rightharpoonup> int64)" where
  "total_views fd = groupby_platform views sum_list fd"

definition total_clicks :: "observation list \<Rightarrow> (string \<rightharpoonup> int64)" where
  "total_clicks fd = groupby_platform clicks sum_list fd"

definition total_conversions :: "observation list \<Rightarrow> (string \<rightharpoonup> int64)" where
  "total_conversions fd = groupby_platform conversions sum_list fd"

definition avg_ctr :: "(rat list \<Rightarrow> rat) \<Rightarrow> observation list \<Rightarrow> (string \<rightharpoonup> rat)" where
  "avg_ctr mean_round2 fd = groupby_platform ctr mean_round2 fd"

definition avg_conversion_rate ::
    "(rat list \<Rightarrow> rat) \<Rightarrow> observation list \<Rightarrow> (string \<rightharpoonup> rat)" where
  "avg_conversion_rate mean_round2 fd = groupby_platform conversion_rate mean_round2 fd"

definition avg_cost_per_click ::
    "(rat list \<Rightarrow> rat) \<Rightarrow> observation list \<Rightarrow> (string \<rightharpoonup> rat)" where
  "avg_cost_per_click mean_round2 fd = groupby_platform cost_per_click mean_round2 fd"

text \<open>
  \<^verbatim>\<open>series.get(key, 0)\<close>. An entry of an integer series is read as a signed number. An
  entry of a float series is a float, and the default is the integer 0: the two print
  differently.
\<close>

datatype number = PyInt int | PyFloat rat

fun num_val :: "number \<Rightarrow> rat" where
  "num_val (PyInt i) = of_int i"
| "num_val (PyFloat x) = x"

definition get_int64 :: "(string \<rightharpoonup> int64) \<Rightarrow> string \<Rightarrow> int \<Rightarrow> int" where
  "get_int64 s key dflt = (case s key of Some w \<Rightarrow> sint w | None \<Rightarrow> dflt)"

definition get_float64 :: "(string \<rightharpoonup> rat) \<Rightarrow> string \<Rightarrow> int \<Rightarrow> number" where
  "get_float64 s key dflt = (case s key of Some x \<Rightarrow> PyFloat x | None \<Rightarrow> PyInt dflt)"

section \<open>Formatting\<close>

text \<open>\<^verbatim>\<open>str(n)\<close> of an integer: its decimal digits, with a minus sign below zero.\<close>

function str_digits :: "int \<Rightarrow> string" where
  "str_digits n =
     (if n < 10 then [char_of (48 + n)]
      else str_digits (n div 10) @ [char_of (48 + n mod 10)])"
  by pat_completeness auto
termination
  by (relation "measure nat") auto

declare str_digits.simps [simp del]

definition str_int :: "int \<Rightarrow> string" where
  "str_int n = (if n < 0 then CHR ''-'' # str_digits (- n) else str_digits n)"

text \<open>
  Doubles. \<open>float64 x\<close> is the double nearest to a rational \<open>x \<ge> 1\<close>, ties to the
  even significand: with \<open>2 ^ e \<le> x < 2 ^ (e + 1)\<close> the doubles around \<open>x\<close> are the
  multiples of \<open>2 ^ (e - 52)\<close>. Below 1 and beyond the range of a double the function
  is not the rounding of the machine, and it is never applied there: \<^verbatim>\<open>format_num\<close>
  divides only numbers that are at least the divisor, and a sum of an \<^verbatim>\<open>int64\<close> column
  is below \<open>2 ^ 63\<close>.
\<close>

function ilog2 :: "int \<Rightarrow> nat" where
  "ilog2 n = (if n < 2 then 0 else Suc (ilog2 (n div 2)))"
  by pat_completeness auto
termination
  by (relation "measure nat") auto

declare ilog2.simps [simp del]

definition round_half_even :: "rat \<Rightarrow> int" where
  "round_half_even x =
     (let f = \<lfloor>x\<rfloor>; r = x - of_int f
      in if r < 1 / 2 then f else if 1 / 2 < r then f + 1 else if even f then f else f + 1)"

definition float64 :: "rat \<Rightarrow> rat" where
  "float64 x =
     (let e = ilog2 \<lfloor>x\<rfloor>;
          ulp = (if 52 \<le> e then 2 ^ (e - 52) else 1 / 2 ^ (52 - e))
      in of_int (round_half_even (x / ulp)) * ulp)"

text \<open>
  \<^verbatim>\<open>n / d\<close> for an \<^verbatim>\<open>int64\<close> \<open>n\<close> and a Python integer \<open>d\<close>: both become doubles, and
  the quotient is rounded to a double.
\<close>

definition true_divide :: "int \<Rightarrow> int \<Rightarrow> rat" where
  "true_divide n d = float64 (float64 (of_int n) / float64 (of_int d))"

text \<open>
  The format \<^verbatim>\<open>.1f\<close> of a double \<open>x \<ge> 0\<close>: the decimal with one digit after the point
  that is nearest to the exact value of \<open>x\<close>, ties to even.
\<close>

definition fmt_1f :: "rat \<Rightarrow> string" where
  "fmt_1f x =
     (let k = round_half_even (x * 10)
      in str_digits (k div 10) @ ''.'' @ str_digits (k mod 10))"

text \<open>Lines 142 to 147.\<close>

definition format_num :: "int \<Rightarrow> string" where
  "format_num n =
     (if 1000000 \<le> n then fmt_1f (true_divide n 1000000) @ ''M''
      else if 1000 \<le> n then fmt_1f (true_divide n 1000) @ ''K''
      else str_int n)"

subsection \<open>What the formatting has to print\<close>

text \<open>
  The meaning of the division and of the format \<^verbatim>\<open>.1f\<close>, stated without the functions
  above. An integer is nearest to a rational when no integer is nearer, and even when
  another one is as near. A double is a significand below \<open>2 ^ 53\<close> times a power of
  two in the range of the format; the double nearest to a rational is one that no double
  beats, with an even significand when another one is as near. A string is the decimal
  numeral of a number from 0 on when it consists of digits, has no leading zero, and has
  that value.
\<close>

definition nearest_int :: "rat \<Rightarrow> int \<Rightarrow> bool" where
  "nearest_int y k \<longleftrightarrow>
     (\<forall>j::int. \<bar>of_int k - y\<bar> \<le> \<bar>of_int j - y\<bar>) \<and>
     ((\<exists>j::int. j \<noteq> k \<and> \<bar>of_int j - y\<bar> = \<bar>of_int k - y\<bar>) \<longrightarrow> even k)"

definition is_double :: "rat \<Rightarrow> bool" where
  "is_double d \<longleftrightarrow>
     (\<exists>m e::int. \<bar>m\<bar> < 2 ^ 53 \<and> - 1074 \<le> e \<and> e \<le> 971 \<and> d = of_int m * 2 powi e)"

definition even_double :: "rat \<Rightarrow> bool" where
  "even_double d \<longleftrightarrow> (\<exists>m e::int. even m \<and> \<bar>m\<bar> \<le> 2 ^ 53 \<and> d = of_int m * 2 powi e)"

definition nearest_double :: "rat \<Rightarrow> rat \<Rightarrow> bool" where
  "nearest_double x d \<longleftrightarrow>
     is_double d \<and>
     (\<forall>d'. is_double d' \<longrightarrow> \<bar>d - x\<bar> \<le> \<bar>d' - x\<bar>) \<and>
     ((\<exists>d'. is_double d' \<and> d' \<noteq> d \<and> \<bar>d' - x\<bar> = \<bar>d - x\<bar>) \<longrightarrow> even_double d)"

definition decimal_of :: "string \<Rightarrow> int \<Rightarrow> bool" where
  "decimal_of s n \<longleftrightarrow>
     s \<noteq> [] \<and> (\<forall>c \<in> set s. CHR ''0'' \<le> c \<and> c \<le> CHR ''9'') \<and>
     (hd s = CHR ''0'' \<longrightarrow> s = ''0'') \<and>
     foldl (\<lambda>a c. 10 * a + (of_char c - 48)) 0 s = n"

text \<open>
  The text of \<open>n / c\<close> under the format \<^verbatim>\<open>.1f\<close>: \<open>n\<close> becomes the nearest double, the
  quotient by \<open>c\<close> becomes the nearest double, that one is rounded to the nearest tenth,
  and the text is the numeral of the whole part, a point, and the digit of the tenths.
\<close>

definition prints_scaled :: "int \<Rightarrow> int \<Rightarrow> string \<Rightarrow> bool" where
  "prints_scaled n c out \<longleftrightarrow>
     (\<exists>d q k s t. nearest_double (of_int n) d \<and> nearest_double (d / of_int c) q \<and>
        nearest_int (q * 10) k \<and> decimal_of s (k div 10) \<and> decimal_of t (k mod 10) \<and>
        out = s @ ''.'' @ t)"

section \<open>Step 7: highlights\<close>

text \<open>
  The three texts that \<^verbatim>\<open>highlight_metric\<close> returns. The mark after the winning value
  is the string literal of the source file, byte for byte (lines 158, 160, 163, 165).
\<close>

definition check_mark :: string where
  "check_mark = [CHR 0xC3, CHR 0xA2, CHR 0xC5, CHR 0x93, CHR 0xE2, CHR 0x80, CHR 0xA6]"

definition fb_marked :: "string \<Rightarrow> string \<Rightarrow> string" where
  "fb_marked fb_val aw_val =
     ''**FB: '' @ fb_val @ '' '' @ check_mark @ ''** | AW: '' @ aw_val"

definition aw_marked :: "string \<Rightarrow> string \<Rightarrow> string" where
  "aw_marked fb_val aw_val =
     ''FB: '' @ fb_val @ '' | **AW: '' @ aw_val @ '' '' @ check_mark @ ''**''"

definition no_mark :: "string \<Rightarrow> string \<Rightarrow> string" where
  "no_mark fb_val aw_val = ''FB: '' @ fb_val @ '' | AW: '' @ aw_val"

text \<open>
  Lines 155 to 166. Every call of the script passes two display strings, which Python
  compares lexicographically by code point.
\<close>

definition highlight_metric :: "string \<Rightarrow> string \<Rightarrow> string \<Rightarrow> string" where
  "highlight_metric fb_val aw_val metric_type =
     (if metric_type = ''higher_better'' then
        (if aw_val < fb_val then fb_marked fb_val aw_val
         else if fb_val < aw_val then aw_marked fb_val aw_val
         else no_mark fb_val aw_val)
      else if metric_type = ''lower_better'' then
        (if fb_val < aw_val then fb_marked fb_val aw_val
         else aw_marked fb_val aw_val)
      else no_mark fb_val aw_val)"




text \<open>Line 194, on the series \<^verbatim>\<open>avg_conversion_rate\<close>.\<close>

definition best_platform :: "(string \<rightharpoonup> rat) \<Rightarrow> string" where
  "best_platform acr =
     (if num_val (get_float64 acr ''AdWords'' 0) < num_val (get_float64 acr ''Facebook'' 0)
      then ''Facebook'' else ''AdWords'')"

section \<open>The loaded frame, cell by cell\<close>

text \<open>
  The records above hold cells that are already numbers and dates. What \<^verbatim>\<open>read_csv\<close>
  loads is wider: a cell of a column is a number where its text is one, and stays text
  otherwise; a date cell is given by the timestamp it stands for. The same lines 24 to
  45 select, rename and concatenate such cells without looking at them, and a row of the
  long table is the list of its nine labelled cells. A row's cell for a label that the
  header lacks is never read.
\<close>

datatype cell = Date timestamp | Int64 int64 | Float64 rat | Text string

record csv_frame =
  csv_columns :: "string list"
  csv_rows :: "(string \<Rightarrow> cell) list"

text \<open>Lines 30 to 33, and line 42: both frames get these labels.\<close>

definition long_columns :: "string list" where
  "long_columns =
     [''date'', ''views'', ''clicks'', ''conversions'', ''cost_per_ad'',
      ''ctr'', ''conversion_rate'', ''cost_per_click'', ''platform'']"

definition csv_select ::
    "string list \<Rightarrow> csv_frame \<Rightarrow> error + (string \<Rightarrow> cell) list" where
  "csv_select names df =
     (let missing = filter (\<lambda>c. c \<notin> set (csv_columns df)) names
      in if missing = [] then Inr (csv_rows df) else Inl (KeyError missing))"

text \<open>
  The selected cells in the order of the selection, then the constant \<^verbatim>\<open>platform\<close> cell,
  under the long labels by position.
\<close>

definition csv_long_row :: "string list \<Rightarrow> string \<Rightarrow> (string \<Rightarrow> cell) \<Rightarrow> (string \<times> cell) list" where
  "csv_long_row names tag r = zip long_columns (map r names @ [Text tag])"

definition csv_facebook :: "csv_frame \<Rightarrow> error + (string \<times> cell) list list" where
  "csv_facebook df =
     (case csv_select facebook_columns df of
        Inl e \<Rightarrow> Inl e
      | Inr rs \<Rightarrow> Inr (map (csv_long_row facebook_columns ''Facebook'') rs))"

definition csv_adwords :: "csv_frame \<Rightarrow> error + (string \<times> cell) list list" where
  "csv_adwords df =
     (case csv_select adwords_columns df of
        Inl e \<Rightarrow> Inl e
      | Inr rs \<Rightarrow> Inr (map (csv_long_row adwords_columns ''AdWords'') rs))"

definition csv_df_long :: "csv_frame \<Rightarrow> error + (string \<times> cell) list list" where
  "csv_df_long df =
     (case csv_facebook df of
        Inl e \<Rightarrow> Inl e
      | Inr fb \<Rightarrow>
          (case csv_adwords df of
             Inl e \<Rightarrow> Inl e
           | Inr aw \<Rightarrow> Inr (fb @ aw)))"

text \<open>
  Lines 56 to 64 take the mean of each of seven columns of the long table. The mean of a
  column raises \<^verbatim>\<open>TypeError\<close> when a cell of it is not a number; on cells of these
  kinds the aggregation fails in no other way, and its values are the grouped aggregates
  defined above.
\<close>

fun is_number :: "cell \<Rightarrow> bool" where
  "is_number (Int64 w) = True"
| "is_number (Float64 x) = True"
| "is_number (Date t) = False"
| "is_number (Text s) = False"

definition aggregated_columns :: "string list" where
  "aggregated_columns =
     [''views'', ''clicks'', ''conversions'', ''cost_per_ad'', ''ctr'', ''conversion_rate'',
      ''cost_per_click'']"

definition platform_summary_raises :: "(string \<times> cell) list list \<Rightarrow> error option" where
  "platform_summary_raises rows =
     (if list_ex (\<lambda>r. list_ex (\<lambda>l. case map_of r l of Some c \<Rightarrow> \<not> is_number c | None \<Rightarrow> False)
                      aggregated_columns) rows
      then Some TypeError else None)"

text \<open>The typed frame as a frame of cells, and a typed observation as a long row.\<close>

definition csv_row :: "campaign \<Rightarrow> string \<Rightarrow> cell" where
  "csv_row r l =
     (if l = ''date_of_campaign'' then Date (date_of_campaign r)
      else if l = ''facebook_ad_views'' then Int64 (facebook_ad_views r)
      else if l = ''facebook_ad_clicks'' then Int64 (facebook_ad_clicks r)
      else if l = ''facebook_ad_conversions'' then Int64 (facebook_ad_conversions r)
      else if l = ''facebook_cost_per_ad'' then Float64 (facebook_cost_per_ad r)
      else if l = ''facebook_ctr'' then Float64 (facebook_ctr r)
      else if l = ''facebook_conversion_rate'' then Float64 (facebook_conversion_rate r)
      else if l = ''facebook_cost_per_click'' then Float64 (facebook_cost_per_click r)
      else if l = ''adword_ad_views'' then Int64 (adword_ad_views r)
      else if l = ''adword_ad_clicks'' then Int64 (adword_ad_clicks r)
      else if l = ''adword_ad_conversions'' then Int64 (adword_ad_conversions r)
      else if l = ''adword_cost_per_ad'' then Float64 (adword_cost_per_ad r)
      else if l = ''adword_ctr'' then Float64 (adword_ctr r)
      else if l = ''adword_conversion_rate'' then Float64 (adword_conversion_rate r)
      else if l = ''adword_cost_per_click'' then Float64 (adword_cost_per_click r)
      else Text [])"

definition csv_of :: "dataframe \<Rightarrow> csv_frame" where
  "csv_of df = \<lparr>csv_columns = df_columns df, csv_rows = map csv_row (df_rows df)\<rparr>"

definition long_row :: "observation \<Rightarrow> (string \<times> cell) list" where
  "long_row ob =
     [(''date'', Date (date ob)), (''views'', Int64 (views ob)), (''clicks'', Int64 (clicks ob)),
      (''conversions'', Int64 (conversions ob)), (''cost_per_ad'', Float64 (cost_per_ad ob)),
      (''ctr'', Float64 (ctr ob)), (''conversion_rate'', Float64 (conversion_rate ob)),
      (''cost_per_click'', Float64 (cost_per_click ob)), (''platform'', Text (platform ob))]"

section \<open>Example data\<close>

text \<open>
  One campaign day on which Facebook has the greater number of views and the two
  platforms have the same cost per click, in a frame with the full header, and the same
  day in a frame whose header lacks \<^verbatim>\<open>adword_ctr\<close>.
\<close>

definition example_day :: campaign where
  "example_day =
     \<lparr>date_of_campaign = 17897,
      facebook_ad_views = 2000000, facebook_ad_clicks = 40, facebook_ad_conversions = 8,
      facebook_cost_per_ad = 90, facebook_ctr = 2, facebook_conversion_rate = 20,
      facebook_cost_per_click = 1 / 2,
      adword_ad_views = 900000, adword_ad_clicks = 60, adword_ad_conversions = 6,
      adword_cost_per_ad = 120, adword_ctr = 5, adword_conversion_rate = 10,
      adword_cost_per_click = 1 / 2\<rparr>"

definition example_df :: dataframe where
  "example_df =
     \<lparr>df_columns = facebook_columns @ tl adwords_columns, df_rows = [example_day]\<rparr>"

definition short_df :: dataframe where
  "short_df =
     \<lparr>df_columns = facebook_columns @ filter (\<lambda>c. c \<noteq> ''adword_ctr'') (tl adwords_columns),
      df_rows = [example_day]\<rparr>"

text \<open>
  The example day as loaded from a file that writes the two click-through rates with a
  percent sign: the header is full, and the two cells are text.
\<close>

definition text_day :: "string \<Rightarrow> cell" where
  "text_day = (csv_row example_day)(''facebook_ctr'' := Text ''2.0%'', ''adword_ctr'' := Text ''5.0%'')"

definition text_df :: csv_frame where
  "text_df = \<lparr>csv_columns = facebook_columns @ tl adwords_columns, csv_rows = [text_day]\<rparr>"

section \<open>Properties of the reshape\<close>

lemma select_columns_Inr:
  "set names \<subseteq> set (df_columns df) \<Longrightarrow> select_columns names df = Inr (df_rows df)"
  by (auto simp: select_columns_def Let_def filter_empty_conv)

lemma select_columns_Inl:
  "\<not> set names \<subseteq> set (df_columns df) \<Longrightarrow>
     select_columns names df = Inl (KeyError (filter (\<lambda>c. c \<notin> set (df_columns df)) names))"
  by (auto simp: select_columns_def Let_def filter_empty_conv)

lemma df_long_full:
  assumes "set facebook_columns \<subseteq> set (df_columns df)"
    and "set adwords_columns \<subseteq> set (df_columns df)"
  shows "df_long df = Inr (map facebook_row (df_rows df) @ map adwords_row (df_rows df))"
  using assms by (simp add: df_long_def facebook_def adwords_def select_columns_Inr)

lemma df_long_missing:
  assumes "\<not> (set facebook_columns \<subseteq> set (df_columns df) \<and> set adwords_columns \<subseteq> set (df_columns df))"
  shows "\<exists>e. df_long df = Inl e"
proof (cases "set facebook_columns \<subseteq> set (df_columns df)")
  case True
  with assms have "\<not> set adwords_columns \<subseteq> set (df_columns df)" by simp
  with True show ?thesis
    by (simp add: df_long_def facebook_def adwords_def select_columns_Inr select_columns_Inl)
next
  case False
  then show ?thesis
    by (simp add: df_long_def facebook_def select_columns_Inl)
qed

lemma df_long_Inr_rows:
  assumes "df_long df = Inr obs"
  shows "obs = map facebook_row (df_rows df) @ map adwords_row (df_rows df)"
proof (cases "set facebook_columns \<subseteq> set (df_columns df) \<and> set adwords_columns \<subseteq> set (df_columns df)")
  case True
  then show ?thesis using assms df_long_full [of df] by simp
next
  case False
  then show ?thesis using assms df_long_missing [of df] by auto
qed

lemma platform_facebook_row [simp]: "platform (facebook_row r) = ''Facebook''"
  by (simp add: facebook_row_def)

lemma platform_adwords_row [simp]: "platform (adwords_row r) = ''AdWords''"
  by (simp add: adwords_row_def)

lemma filter_facebook_long:
  "filter (\<lambda>ob. platform ob = ''Facebook'') (map facebook_row rs @ map adwords_row rs) = map facebook_row rs"
  by (induction rs) (simp_all add: filter_empty_conv)

lemma filter_adwords_long:
  "filter (\<lambda>ob. platform ob = ''AdWords'') (map facebook_row rs @ map adwords_row rs) = map adwords_row rs"
  by (simp add: filter_empty_conv)

text \<open>
  C3: on a frame with every expected column, the reshape yields twice as many
  observations as the frame has rows. Row \<open>i\<close> of the frame gives observation \<open>i\<close>,
  tagged Facebook and built from the \<^verbatim>\<open>facebook_*\<close> fields, and observation \<open>N + i\<close>,
  tagged AdWords and built from the \<^verbatim>\<open>adword_*\<close> fields, both with the date of the row,
  under the shared column names; \<open>N\<close> observations carry each tag.
\<close>
theorem df_long_two_per_record:
  assumes "set facebook_columns \<subseteq> set (df_columns df)"
    and "set adwords_columns \<subseteq> set (df_columns df)"
  shows "\<exists>obs. df_long df = Inr obs \<and>
           length obs = 2 * length (df_rows df) \<and>
           length (filter (\<lambda>ob. platform ob = ''Facebook'') obs) = length (df_rows df) \<and>
           length (filter (\<lambda>ob. platform ob = ''AdWords'') obs) = length (df_rows df) \<and>
           (\<forall>i < length (df_rows df).
              obs ! i =
                \<lparr>date = date_of_campaign (df_rows df ! i),
                 views = facebook_ad_views (df_rows df ! i),
                 clicks = facebook_ad_clicks (df_rows df ! i),
                 conversions = facebook_ad_conversions (df_rows df ! i),
                 cost_per_ad = facebook_cost_per_ad (df_rows df ! i),
                 ctr = facebook_ctr (df_rows df ! i),
                 conversion_rate = facebook_conversion_rate (df_rows df ! i),
                 cost_per_click = facebook_cost_per_click (df_rows df ! i),
                 platform = ''Facebook''\<rparr> \<and>
              obs ! (length (df_rows df) + i) =
                \<lparr>date = date_of_campaign (df_rows df ! i),
                 views = adword_ad_views (df_rows df ! i),
                 clicks = adword_ad_clicks (df_rows df ! i),
                 conversions = adword_ad_conversions (df_rows df ! i),
                 cost_per_ad = adword_cost_per_ad (df_rows df ! i),
                 ctr = adword_ctr (df_rows df ! i),
                 conversion_rate = adword_conversion_rate (df_rows df ! i),
                 cost_per_click = adword_cost_per_click (df_rows df ! i),
                 platform = ''AdWords''\<rparr>)"
proof -
  let ?rs = "df_rows df"
  let ?obs = "map facebook_row ?rs @ map adwords_row ?rs"
  have long: "df_long df = Inr ?obs"
    using assms by (rule df_long_full)
  have len: "length ?obs = 2 * length ?rs"
    by simp
  have fb: "length (filter (\<lambda>ob. platform ob = ''Facebook'') ?obs) = length ?rs"
    by (simp only: filter_facebook_long length_map)
  have aw: "length (filter (\<lambda>ob. platform ob = ''AdWords'') ?obs) = length ?rs"
    by (simp only: filter_adwords_long length_map)
  have rows: "?obs ! i = facebook_row (?rs ! i) \<and> ?obs ! (length ?rs + i) = adwords_row (?rs ! i)"
    if "i < length ?rs" for i
    using that by (simp add: nth_append)
  show ?thesis
    using long len fb aw rows
    by (intro exI [of _ ?obs]) (simp add: facebook_row_def adwords_row_def)
qed

lemma map_views_facebook_row: "map views (map facebook_row rs) = map facebook_ad_views rs"
  by (simp add: facebook_row_def)

lemma map_views_adwords_row: "map views (map adwords_row rs) = map adword_ad_views rs"
  by (simp add: adwords_row_def)

text \<open>
  C4: for a frame with at least one row, the \<^verbatim>\<open>views\<close> sum of the platform summary
  over the reshaped observations is, for Facebook, the sum of the column
  \<^verbatim>\<open>facebook_ad_views\<close> and, for AdWords, the sum of the column \<^verbatim>\<open>adword_ad_views\<close>
  (both sums in 64-bit arithmetic).
\<close>
theorem views_sum_round_trip:
  assumes "df_long df = Inr obs" and "df_rows df \<noteq> []"
  shows "platform_summary_views_sum obs ''Facebook'' = Some (sum_list (map facebook_ad_views (df_rows df))) \<and>
         platform_summary_views_sum obs ''AdWords'' = Some (sum_list (map adword_ad_views (df_rows df)))"
proof -
  let ?rs = "df_rows df"
  have obs: "obs = map facebook_row ?rs @ map adwords_row ?rs"
    using assms(1) by (rule df_long_Inr_rows)
  obtain r rs' where rs: "?rs = r # rs'"
    using assms(2) by (cases ?rs) auto
  have fb_in: "''Facebook'' \<in> set (map platform obs)"
    by (simp add: obs rs)
  have aw_in: "''AdWords'' \<in> set (map platform obs)"
    by (simp add: obs rs)
  have "platform_summary_views_sum obs ''Facebook'' = Some (sum_list (map facebook_ad_views ?rs))"
    using fb_in unfolding platform_summary_views_sum_def groupby_platform_def
    by (simp only: if_True obs filter_facebook_long map_views_facebook_row)
  moreover
  have "platform_summary_views_sum obs ''AdWords'' = Some (sum_list (map adword_ad_views ?rs))"
    using aw_in unfolding platform_summary_views_sum_def groupby_platform_def
    by (simp only: if_True obs filter_adwords_long map_views_adwords_row)
  ultimately show ?thesis by simp
qed

lemma example_df_full:
  "set facebook_columns \<subseteq> set (df_columns example_df) \<and>
   set adwords_columns \<subseteq> set (df_columns example_df)"
  by (simp add: example_df_def facebook_columns_def adwords_columns_def)

theorem df_long_two_per_record_witness:
  "df_long example_df = Inr [facebook_row example_day, adwords_row example_day] \<and>
   length [facebook_row example_day, adwords_row example_day] = 2 * length (df_rows example_df) \<and>
   views ([facebook_row example_day, adwords_row example_day] ! 0) = 2000000 \<and>
   views ([facebook_row example_day, adwords_row example_day] ! (length (df_rows example_df) + 0)) = 900000"
proof -
  have full: "set facebook_columns \<subseteq> set (df_columns example_df)"
    "set adwords_columns \<subseteq> set (df_columns example_df)"
    using example_df_full by simp_all
  have long: "df_long example_df = Inr [facebook_row example_day, adwords_row example_day]"
    using df_long_full [OF full] by (simp add: example_df_def)
  from df_long_two_per_record [OF full] long
  show ?thesis
    by (simp add: example_df_def facebook_row_def adwords_row_def example_day_def)
qed

theorem views_sum_round_trip_witness:
  "df_long example_df = Inr [facebook_row example_day, adwords_row example_day] \<and>
   df_rows example_df \<noteq> [] \<and>
   platform_summary_views_sum [facebook_row example_day, adwords_row example_day] ''Facebook'' = Some 2000000 \<and>
   platform_summary_views_sum [facebook_row example_day, adwords_row example_day] ''AdWords'' = Some 900000"
proof -
  have full: "set facebook_columns \<subseteq> set (df_columns example_df)"
    "set adwords_columns \<subseteq> set (df_columns example_df)"
    using example_df_full by simp_all
  have long: "df_long example_df = Inr [facebook_row example_day, adwords_row example_day]"
    using df_long_full [OF full] by (simp add: example_df_def)
  have ne: "df_rows example_df \<noteq> []"
    by (simp add: example_df_def)
  from views_sum_round_trip [OF long ne] long ne
  show ?thesis
    by (simp add: example_df_def example_day_def)
qed

section \<open>Properties of the filter\<close>

text \<open>
  C5: the filter keeps exactly the observations whose date lies between the start and
  the end date, both included, and whose platform is one of the selected ones; it keeps
  each as often as it occurs, and drops every other observation.
\<close>
theorem filtered_data_exact:
  "(ob \<in> set (filtered_data obs start_date end_date platform_options) \<longleftrightarrow>
      ob \<in> set obs \<and> start_date \<le> date ob \<and> date ob \<le> end_date \<and>
      platform ob \<in> set platform_options) \<and>
   count_list (filtered_data obs start_date end_date platform_options) ob =
     (if start_date \<le> date ob \<and> date ob \<le> end_date \<and> platform ob \<in> set platform_options
      then count_list obs ob else 0)"
proof -
  have "count_list (filter P xs) x = (if P x then count_list xs x else 0)" for P and xs :: "observation list" and x
    by (induction xs) auto
  then show ?thesis
    unfolding filtered_data_def by auto
qed

theorem filtered_data_exact_witness:
  "facebook_row example_day \<in> set (filtered_data [facebook_row example_day, adwords_row example_day] 17897 17897 [''Facebook'']) \<and>
   adwords_row example_day \<notin> set (filtered_data [facebook_row example_day, adwords_row example_day] 17897 17897 [''Facebook'']) \<and>
   facebook_row example_day \<notin> set (filtered_data [facebook_row example_day, adwords_row example_day] 17898 17899 [''Facebook'']) \<and>
   facebook_row example_day \<notin> set (filtered_data [facebook_row example_day, adwords_row example_day] 17890 17896 [''Facebook''])"
  using filtered_data_exact [of "facebook_row example_day" "[facebook_row example_day, adwords_row example_day]" 17897 17897 "[''Facebook'']"]
    filtered_data_exact [of "adwords_row example_day" "[facebook_row example_day, adwords_row example_day]" 17897 17897 "[''Facebook'']"]
    filtered_data_exact [of "facebook_row example_day" "[facebook_row example_day, adwords_row example_day]" 17898 17899 "[''Facebook'']"]
    filtered_data_exact [of "facebook_row example_day" "[facebook_row example_day, adwords_row example_day]" 17890 17896 "[''Facebook'']"]
  by (simp add: facebook_row_def adwords_row_def example_day_def)

section \<open>Failures\<close>

text \<open>The cell-level reshape agrees with the typed one, and a typed frame has only numbers.\<close>

lemma long_row_facebook:
  "csv_long_row facebook_columns ''Facebook'' (csv_row r) = long_row (facebook_row r)"
  by (simp add: csv_long_row_def long_columns_def facebook_columns_def csv_row_def long_row_def
      facebook_row_def)

lemma long_row_adwords:
  "csv_long_row adwords_columns ''AdWords'' (csv_row r) = long_row (adwords_row r)"
  by (simp add: csv_long_row_def long_columns_def adwords_columns_def csv_row_def long_row_def
      adwords_row_def)

lemma csv_select_typed:
  "csv_select names (csv_of df) =
     (case select_columns names df of Inl e \<Rightarrow> Inl e | Inr rs \<Rightarrow> Inr (map csv_row rs))"
  by (simp add: csv_select_def select_columns_def csv_of_def Let_def)

lemma csv_df_long_typed:
  "csv_df_long (csv_of df) =
     (case df_long df of Inl e \<Rightarrow> Inl e | Inr obs \<Rightarrow> Inr (map long_row obs))"
  by (simp add: csv_df_long_def csv_facebook_def csv_adwords_def csv_select_typed df_long_def
      facebook_def adwords_def long_row_facebook long_row_adwords comp_def
      split: sum.splits)

lemma long_row_numbers: "platform_summary_raises (map long_row obs) = None"
  by (simp add: platform_summary_raises_def list_ex_iff aggregated_columns_def long_row_def)

lemma csv_select_Inr:
  "set names \<subseteq> set (csv_columns df) \<Longrightarrow> csv_select names df = Inr (csv_rows df)"
  by (auto simp: csv_select_def Let_def filter_empty_conv)

lemma csv_select_Inl:
  "\<not> set names \<subseteq> set (csv_columns df) \<Longrightarrow>
     csv_select names df = Inl (KeyError (filter (\<lambda>c. c \<notin> set (csv_columns df)) names)) \<and>
     filter (\<lambda>c. c \<notin> set (csv_columns df)) names \<noteq> []"
  by (auto simp: csv_select_def Let_def filter_empty_conv)

lemma csv_df_long_full:
  assumes "set (facebook_columns @ adwords_columns) \<subseteq> set (csv_columns df)"
  shows "csv_df_long df =
           Inr (map (csv_long_row facebook_columns ''Facebook'') (csv_rows df) @
                map (csv_long_row adwords_columns ''AdWords'') (csv_rows df))"
  using assms
  by (simp add: csv_df_long_def csv_facebook_def csv_adwords_def csv_select_Inr)

lemma csv_df_long_missing:
  assumes "c \<in> set (facebook_columns @ adwords_columns)" and "c \<notin> set (csv_columns df)"
  shows "\<exists>missing. csv_df_long df = Inl (KeyError missing) \<and> missing \<noteq> []"
proof (cases "set facebook_columns \<subseteq> set (csv_columns df)")
  case True
  with assms have "\<not> set adwords_columns \<subseteq> set (csv_columns df)" by auto
  with True show ?thesis
    using csv_select_Inl [of adwords_columns df]
    by (simp add: csv_df_long_def csv_facebook_def csv_adwords_def csv_select_Inr)
next
  case False
  then show ?thesis
    using csv_select_Inl [of facebook_columns df]
    by (simp add: csv_df_long_def csv_facebook_def)
qed

lemma facebook_row_text:
  "list_ex (\<lambda>l. case map_of (csv_long_row facebook_columns tag r) l of
                  Some c \<Rightarrow> \<not> is_number c | None \<Rightarrow> False) aggregated_columns \<longleftrightarrow>
   list_ex (\<lambda>l. \<not> is_number (r l)) (tl facebook_columns)"
  by (simp add: csv_long_row_def long_columns_def facebook_columns_def aggregated_columns_def)

lemma adwords_row_text:
  "list_ex (\<lambda>l. case map_of (csv_long_row adwords_columns tag r) l of
                  Some c \<Rightarrow> \<not> is_number c | None \<Rightarrow> False) aggregated_columns \<longleftrightarrow>
   list_ex (\<lambda>l. \<not> is_number (r l)) (tl adwords_columns)"
  by (simp add: csv_long_row_def long_columns_def adwords_columns_def aggregated_columns_def)

lemma platform_summary_raises_iff:
  "platform_summary_raises
     (map (csv_long_row facebook_columns ''Facebook'') rs @
      map (csv_long_row adwords_columns ''AdWords'') rs) =
   (if list_ex (\<lambda>r. list_ex (\<lambda>l. \<not> is_number (r l)) (tl facebook_columns @ tl adwords_columns)) rs
    then Some TypeError else None)"
proof -
  let ?bad = "\<lambda>row. list_ex (\<lambda>l. case map_of row l of Some c \<Rightarrow> \<not> is_number c | None \<Rightarrow> False)
                aggregated_columns"
  have fb: "list_ex ?bad (map (csv_long_row facebook_columns ''Facebook'') rs) =
              list_ex (\<lambda>r. list_ex (\<lambda>l. \<not> is_number (r l)) (tl facebook_columns)) rs"
    by (induction rs) (simp_all only: list.map list_ex_Nil_iff list_ex_Cons_iff facebook_row_text)
  have aw: "list_ex ?bad (map (csv_long_row adwords_columns ''AdWords'') rs) =
              list_ex (\<lambda>r. list_ex (\<lambda>l. \<not> is_number (r l)) (tl adwords_columns)) rs"
    by (induction rs) (simp_all only: list.map list_ex_Nil_iff list_ex_Cons_iff adwords_row_text)
  show ?thesis
    unfolding platform_summary_raises_def list_ex_append fb aw
    by (auto simp: list_ex_iff)
qed


text \<open>
  C6, as amended: when an expected column (the date or one of the fourteen metric
  columns) is not in the header, the reshape fails with \<^verbatim>\<open>KeyError\<close>; when all are in
  the header it returns its two observations per row, whatever the cells hold. It is not
  the only failure: on a full header the summary of lines 56 to 64 raises
  \<^verbatim>\<open>TypeError\<close> exactly when a metric cell is not a number. On a typed frame with the
  full header neither the reshape nor that summary fails.
\<close>
theorem csv_df_long_KeyError:
  "(c \<in> set (facebook_columns @ adwords_columns) \<and> c \<notin> set (csv_columns df) \<longrightarrow>
      (\<exists>missing. csv_df_long df = Inl (KeyError missing) \<and> missing \<noteq> [])) \<and>
   (set (facebook_columns @ adwords_columns) \<subseteq> set (csv_columns df) \<longrightarrow>
      csv_df_long df =
        Inr (map (csv_long_row facebook_columns ''Facebook'') (csv_rows df) @
             map (csv_long_row adwords_columns ''AdWords'') (csv_rows df)) \<and>
      platform_summary_raises
        (map (csv_long_row facebook_columns ''Facebook'') (csv_rows df) @
         map (csv_long_row adwords_columns ''AdWords'') (csv_rows df)) =
        (if list_ex (\<lambda>r. list_ex (\<lambda>l. \<not> is_number (r l))
                           (tl facebook_columns @ tl adwords_columns)) (csv_rows df)
         then Some TypeError else None)) \<and>
   (set (facebook_columns @ adwords_columns) \<subseteq> set (df_columns tdf) \<longrightarrow>
      (\<exists>obs. df_long tdf = Inr obs \<and> csv_df_long (csv_of tdf) = Inr (map long_row obs) \<and>
         platform_summary_raises (map long_row obs) = None))"
proof (intro conjI impI)
  assume "c \<in> set (facebook_columns @ adwords_columns) \<and> c \<notin> set (csv_columns df)"
  then show "\<exists>missing. csv_df_long df = Inl (KeyError missing) \<and> missing \<noteq> []"
    using csv_df_long_missing [of c df] by simp
next
  assume full: "set (facebook_columns @ adwords_columns) \<subseteq> set (csv_columns df)"
  then show "csv_df_long df =
        Inr (map (csv_long_row facebook_columns ''Facebook'') (csv_rows df) @
             map (csv_long_row adwords_columns ''AdWords'') (csv_rows df))"
    by (rule csv_df_long_full)
  show "platform_summary_raises
        (map (csv_long_row facebook_columns ''Facebook'') (csv_rows df) @
         map (csv_long_row adwords_columns ''AdWords'') (csv_rows df)) =
        (if list_ex (\<lambda>r. list_ex (\<lambda>l. \<not> is_number (r l))
                           (tl facebook_columns @ tl adwords_columns)) (csv_rows df)
         then Some TypeError else None)"
    by (rule platform_summary_raises_iff)
next
  assume "set (facebook_columns @ adwords_columns) \<subseteq> set (df_columns tdf)"
  then have "df_long tdf = Inr (map facebook_row (df_rows tdf) @ map adwords_row (df_rows tdf))"
    by (simp add: df_long_full)
  then show "\<exists>obs. df_long tdf = Inr obs \<and> csv_df_long (csv_of tdf) = Inr (map long_row obs) \<and>
         platform_summary_raises (map long_row obs) = None"
    by (simp add: csv_df_long_typed long_row_numbers)
qed

theorem csv_df_long_KeyError_witness:
  "''adword_ctr'' \<in> set (facebook_columns @ adwords_columns) \<and>
   ''adword_ctr'' \<notin> set (csv_columns (csv_of short_df)) \<and>
   (\<exists>missing. csv_df_long (csv_of short_df) = Inl (KeyError missing) \<and> missing \<noteq> []) \<and>
   set (facebook_columns @ adwords_columns) \<subseteq> set (csv_columns text_df) \<and>
   csv_df_long text_df =
     Inr [csv_long_row facebook_columns ''Facebook'' text_day,
          csv_long_row adwords_columns ''AdWords'' text_day] \<and>
   platform_summary_raises
     [csv_long_row facebook_columns ''Facebook'' text_day,
      csv_long_row adwords_columns ''AdWords'' text_day] = Some TypeError \<and>
   set (facebook_columns @ adwords_columns) \<subseteq> set (df_columns example_df) \<and>
   (\<exists>obs. df_long example_df = Inr obs \<and> csv_df_long (csv_of example_df) = Inr (map long_row obs) \<and>
      platform_summary_raises (map long_row obs) = None)"
proof -
  have a: "''adword_ctr'' \<in> set (facebook_columns @ adwords_columns)"
    by (simp add: facebook_columns_def adwords_columns_def)
  have b: "''adword_ctr'' \<notin> set (csv_columns (csv_of short_df))"
    by (simp add: csv_of_def short_df_def facebook_columns_def adwords_columns_def)
  have c: "set (facebook_columns @ adwords_columns) \<subseteq> set (csv_columns text_df)"
    by (simp add: text_df_def facebook_columns_def adwords_columns_def)
  have d: "set (facebook_columns @ adwords_columns) \<subseteq> set (df_columns example_df)"
    using example_df_full by simp
  have e: "list_ex (\<lambda>r. list_ex (\<lambda>l. \<not> is_number (r l)) (tl facebook_columns @ tl adwords_columns))
             (csv_rows text_df)"
    by (simp add: text_df_def text_day_def facebook_columns_def adwords_columns_def)
  have f: "csv_rows text_df = [text_day]"
    by (simp add: text_df_def)
  have 1: "\<exists>missing. csv_df_long (csv_of short_df) = Inl (KeyError missing) \<and> missing \<noteq> []"
    using csv_df_long_KeyError [of "''adword_ctr''" "csv_of short_df" example_df, THEN conjunct1]
      a b by blast
  have 2: "csv_df_long text_df =
        Inr (map (csv_long_row facebook_columns ''Facebook'') (csv_rows text_df) @
             map (csv_long_row adwords_columns ''AdWords'') (csv_rows text_df)) \<and>
      platform_summary_raises
        (map (csv_long_row facebook_columns ''Facebook'') (csv_rows text_df) @
         map (csv_long_row adwords_columns ''AdWords'') (csv_rows text_df)) =
        (if list_ex (\<lambda>r. list_ex (\<lambda>l. \<not> is_number (r l))
                           (tl facebook_columns @ tl adwords_columns)) (csv_rows text_df)
         then Some TypeError else None)"
    using csv_df_long_KeyError [of "''adword_ctr''" text_df example_df, THEN conjunct2, THEN conjunct1]
      c by blast
  have 2: "csv_df_long text_df =
     Inr [csv_long_row facebook_columns ''Facebook'' text_day,
          csv_long_row adwords_columns ''AdWords'' text_day] \<and>
   platform_summary_raises
     [csv_long_row facebook_columns ''Facebook'' text_day,
      csv_long_row adwords_columns ''AdWords'' text_day] = Some TypeError"
    using 2 e unfolding f by simp
  have 3: "\<exists>obs. df_long example_df = Inr obs \<and>
      csv_df_long (csv_of example_df) = Inr (map long_row obs) \<and>
      platform_summary_raises (map long_row obs) = None"
    using csv_df_long_KeyError [of "''adword_ctr''" text_df example_df, THEN conjunct2, THEN conjunct2]
      d by blast
  show ?thesis
    using a b c d 1 2 3 by (intro conjI) simp_all
qed

text \<open>
  A frame with the full header on which an operation fails: the click-through rates are
  text, the reshape passes them on, and the summary raises \<^verbatim>\<open>TypeError\<close>.
\<close>
theorem full_schema_TypeError_counterexample:
  "set (facebook_columns @ adwords_columns) \<subseteq> set (csv_columns text_df) \<and>
   csv_df_long text_df =
     Inr [csv_long_row facebook_columns ''Facebook'' text_day,
          csv_long_row adwords_columns ''AdWords'' text_day] \<and>
   map_of (csv_long_row facebook_columns ''Facebook'' text_day) ''ctr'' = Some (Text ''2.0%'') \<and>
   platform_summary_raises
     [csv_long_row facebook_columns ''Facebook'' text_day,
      csv_long_row adwords_columns ''AdWords'' text_day] = Some TypeError"
proof -
  have c: "set (facebook_columns @ adwords_columns) \<subseteq> set (csv_columns text_df)"
    by (simp add: text_df_def facebook_columns_def adwords_columns_def)
  have l: "csv_df_long text_df =
     Inr [csv_long_row facebook_columns ''Facebook'' text_day,
          csv_long_row adwords_columns ''AdWords'' text_day]"
    using csv_df_long_full [OF c] by (simp add: text_df_def)
  have t: "map_of (csv_long_row facebook_columns ''Facebook'' text_day) ''ctr'' = Some (Text ''2.0%'')"
    by (simp add: csv_long_row_def long_columns_def facebook_columns_def text_day_def)
  have r: "platform_summary_raises
     [csv_long_row facebook_columns ''Facebook'' text_day,
      csv_long_row adwords_columns ''AdWords'' text_day] = Some TypeError"
    using platform_summary_raises_iff [of "[text_day]"]
    by (simp add: text_day_def facebook_columns_def adwords_columns_def)
  show ?thesis using c l t r by simp
qed

lemma groupby_platform_absent:
  "p \<notin> set (map platform obs) \<Longrightarrow> groupby_platform col agg obs p = None"
  by (simp add: groupby_platform_def)

section \<open>Properties of the key insights\<close>

text \<open>
  C7: a platform with no observation in the filtered data has no entry in any of the six
  grouped series (three sums, three means), and each \<^verbatim>\<open>get(platform, 0)\<close> of the display
  lines yields the default 0 for it.
\<close>
theorem absent_platform_defaults:
  assumes "p \<notin> set (map platform (filtered_data obs start_date end_date platform_options))"
  shows "(let fd = filtered_data obs start_date end_date platform_options in
          total_views fd p = None \<and>
          total_clicks fd p = None \<and>
          total_conversions fd p = None \<and>
          avg_ctr mean_round2 fd p = None \<and>
          avg_conversion_rate mean_round2 fd p = None \<and>
          avg_cost_per_click mean_round2 fd p = None \<and>
          get_int64 (total_views fd) p 0 = 0 \<and>
          get_int64 (total_clicks fd) p 0 = 0 \<and>
          get_int64 (total_conversions fd) p 0 = 0 \<and>
          get_float64 (avg_ctr mean_round2 fd) p 0 = PyInt 0 \<and>
          get_float64 (avg_conversion_rate mean_round2 fd) p 0 = PyInt 0 \<and>
          get_float64 (avg_cost_per_click mean_round2 fd) p 0 = PyInt 0)"
  using assms
  by (simp add: Let_def total_views_def total_clicks_def total_conversions_def avg_ctr_def
      avg_conversion_rate_def avg_cost_per_click_def get_int64_def get_float64_def
      groupby_platform_absent)

theorem absent_platform_defaults_witness:
  "''AdWords'' \<notin> set (map platform (filtered_data [facebook_row example_day, adwords_row example_day] 17897 17897 [''Facebook''])) \<and>
   total_views (filtered_data [facebook_row example_day, adwords_row example_day] 17897 17897 [''Facebook'']) ''AdWords'' = None \<and>
   total_views (filtered_data [facebook_row example_day, adwords_row example_day] 17897 17897 [''Facebook'']) ''Facebook'' = Some 2000000 \<and>
   get_int64 (total_views (filtered_data [facebook_row example_day, adwords_row example_day] 17897 17897 [''Facebook''])) ''AdWords'' 0 = 0 \<and>
   get_float64 (avg_ctr hd (filtered_data [facebook_row example_day, adwords_row example_day] 17897 17897 [''Facebook''])) ''AdWords'' 0 = PyInt 0 \<and>
   get_float64 (avg_ctr hd (filtered_data [facebook_row example_day, adwords_row example_day] 17897 17897 [''Facebook''])) ''Facebook'' 0 = PyFloat 2"
proof -
  let ?fd = "filtered_data [facebook_row example_day, adwords_row example_day] 17897 17897 [''Facebook'']"
  have fd: "?fd = [facebook_row example_day]"
    by (simp add: filtered_data_def facebook_row_def adwords_row_def example_day_def)
  have absent: "''AdWords'' \<notin> set (map platform ?fd)"
    unfolding fd by simp
  have fb: "total_views ?fd ''Facebook'' = Some 2000000"
    unfolding fd by (simp add: total_views_def groupby_platform_def facebook_row_def example_day_def)
  have ctr: "get_float64 (avg_ctr hd ?fd) ''Facebook'' 0 = PyFloat 2"
    unfolding fd by (simp add: avg_ctr_def get_float64_def groupby_platform_def facebook_row_def example_day_def)
  from absent_platform_defaults [OF absent, of hd] absent fb ctr
  show ?thesis
    by (simp add: Let_def)
qed

text \<open>
  C10: when neither platform has an observation in the filtered data, both lookups of
  the mean conversion rate yield the default 0, and \<^verbatim>\<open>best_platform\<close> is AdWords.
\<close>
theorem best_platform_both_absent:
  assumes "''Facebook'' \<notin> set (map platform fd)" and "''AdWords'' \<notin> set (map platform fd)"
  shows "get_float64 (avg_conversion_rate mean_round2 fd) ''Facebook'' 0 = PyInt 0 \<and>
         get_float64 (avg_conversion_rate mean_round2 fd) ''AdWords'' 0 = PyInt 0 \<and>
         best_platform (avg_conversion_rate mean_round2 fd) = ''AdWords''"
  using assms
  by (simp add: best_platform_def avg_conversion_rate_def get_float64_def groupby_platform_absent)

theorem best_platform_both_absent_witness:
  "filtered_data [facebook_row example_day, adwords_row example_day] 17897 17897 [] = [] \<and>
   get_float64 (avg_conversion_rate hd []) ''Facebook'' 0 = PyInt 0 \<and>
   get_float64 (avg_conversion_rate hd []) ''AdWords'' 0 = PyInt 0 \<and>
   best_platform (avg_conversion_rate hd (filtered_data [facebook_row example_day, adwords_row example_day] 17897 17897 [])) = ''AdWords''"
proof -
  have fd: "filtered_data [facebook_row example_day, adwords_row example_day] 17897 17897 [] = []"
    by (simp add: filtered_data_def)
  have a: "''Facebook'' \<notin> set (map platform ([] :: observation list))"
    and b: "''AdWords'' \<notin> set (map platform ([] :: observation list))"
    by simp_all
  from best_platform_both_absent [OF a b, of hd] fd
  show ?thesis by simp
qed

text \<open>
  With equal mean conversion rates (5 and 5) the comparison of line 194 is false, so the
  result is not Facebook.
\<close>
theorem best_platform_tie_counterexample:
  "best_platform [''Facebook'' \<mapsto> 5, ''AdWords'' \<mapsto> 5] \<noteq> ''Facebook''"
  by (simp add: best_platform_def get_float64_def)

text \<open>
  C1, as amended: when both platforms have a mean conversion rate, \<^verbatim>\<open>best_platform\<close> is
  AdWords if the two are equal, and otherwise the platform with the strictly greater one.
\<close>
theorem best_platform_strictly_greater:
  assumes "acr ''Facebook'' = Some a" and "acr ''AdWords'' = Some b"
  shows "(a = b \<longrightarrow> best_platform acr = ''AdWords'') \<and>
         (b < a \<longrightarrow> best_platform acr = ''Facebook'') \<and>
         (a < b \<longrightarrow> best_platform acr = ''AdWords'')"
  using assms by (auto simp: best_platform_def get_float64_def)

theorem best_platform_strictly_greater_witness:
  "best_platform [''Facebook'' \<mapsto> 5, ''AdWords'' \<mapsto> 5] = ''AdWords'' \<and>
   best_platform [''Facebook'' \<mapsto> 7, ''AdWords'' \<mapsto> 5] = ''Facebook'' \<and>
   best_platform [''Facebook'' \<mapsto> 5, ''AdWords'' \<mapsto> 7] = ''AdWords''"
  using best_platform_strictly_greater [of "[''Facebook'' \<mapsto> 5, ''AdWords'' \<mapsto> 5]" 5 5]
    best_platform_strictly_greater [of "[''Facebook'' \<mapsto> 7, ''AdWords'' \<mapsto> 5]" 7 5]
    best_platform_strictly_greater [of "[''Facebook'' \<mapsto> 5, ''AdWords'' \<mapsto> 7]" 5 7]
  by simp

text \<open>On two equal display strings, the two branches of \<^verbatim>\<open>highlight_metric\<close> differ.\<close>

lemma highlight_metric_tie:
  "highlight_metric v v ''higher_better'' = no_mark v v \<and>
   highlight_metric v v ''lower_better'' = aw_marked v v"
  by (simp add: highlight_metric_def)

text \<open>
  C2: with two equal display strings of the cost per click, the branch
  \<^verbatim>\<open>lower_better\<close> marks AdWords as the better one, where the branch
  \<^verbatim>\<open>higher_better\<close> marks neither.
\<close>
theorem highlight_metric_lower_better_tie:
  "highlight_metric ''$0.5'' ''$0.5'' ''lower_better'' = aw_marked ''$0.5'' ''$0.5'' \<and>
   aw_marked ''$0.5'' ''$0.5'' \<noteq> no_mark ''$0.5'' ''$0.5'' \<and>
   highlight_metric ''$0.5'' ''$0.5'' ''higher_better'' = no_mark ''$0.5'' ''$0.5''"
  by (simp add: highlight_metric_def aw_marked_def no_mark_def)

section \<open>Properties of the display\<close>

text \<open>
  The rounding is to a nearest integer, and the double quotient is not the exact one:
  1.05 and 1.15 are not doubles, and the doubles nearest to them print as \<^verbatim>\<open>1.1\<close>,
  while 1.25 is a double and the tie goes to the even digit.
\<close>

lemma round_half_even_nearest: "\<bar>of_int (round_half_even x) - x\<bar> \<le> 1 / 2"
proof -
  have "of_int \<lfloor>x\<rfloor> \<le> x" "x < of_int \<lfloor>x\<rfloor> + 1"
    by linarith+
  then show ?thesis
    by (auto simp: round_half_even_def Let_def)
qed

lemma round_half_even_of_int: "round_half_even (of_int k) = k"
  by (simp add: round_half_even_def)

lemma format_num_ties:
  "format_num 1050 = ''1.1K'' \<and> format_num 1150 = ''1.1K'' \<and> format_num 1250 = ''1.2K''"
proof -
  have "format_num 1050 = ''1.1K''" by code_simp
  moreover have "format_num 1150 = ''1.1K''" by code_simp
  moreover have "format_num 1250 = ''1.2K''" by code_simp
  ultimately show ?thesis by simp
qed

text \<open>The functions above compute what the specification of the formatting asks for.\<close>

lemma ilog2_bounds: "1 \<le> n \<Longrightarrow> 2 ^ ilog2 n \<le> n \<and> n < 2 ^ (ilog2 n + 1)"
proof (induction n rule: ilog2.induct)
  case (1 n)
  show ?case
  proof (cases "n < 2")
    case True
    with "1.prems" have "n = 1" by simp
    then show ?thesis by (simp add: ilog2.simps)
  next
    case False
    then have "1 \<le> n div 2" by simp
    with "1.IH" False have ih: "2 ^ ilog2 (n div 2) \<le> n div 2" "n div 2 < 2 ^ (ilog2 (n div 2) + 1)"
      by simp_all
    have eq: "ilog2 n = Suc (ilog2 (n div 2))"
      using False by (subst ilog2.simps) simp
    have "2 * (n div 2) \<le> n" "n < 2 * (n div 2) + 2" by linarith+
    with ih show ?thesis
      unfolding eq by simp
  qed
qed

lemma round_half_even_nearest_int: "nearest_int y (round_half_even y)"
proof -
  define f where "f = \<lfloor>y\<rfloor>"
  define r where "r = y - of_int f"
  have r: "0 \<le> r" "r < 1" and y: "y = of_int f + r"
    unfolding r_def f_def by linarith+
  have far: "\<bar>of_int j - y\<bar> = (if j \<le> f then r + of_int (f - j) else of_int (j - f) - r)" for j :: int
  proof (cases "j \<le> f")
    case True
    then have "(of_int j :: rat) \<le> of_int f" by simp
    with r y True show ?thesis by simp
  next
    case False
    then have "f + 1 \<le> j" by simp
    then have "(of_int f :: rat) + 1 \<le> of_int j"
      by (metis of_int_1 of_int_add of_int_le_iff)
    with r y False show ?thesis by simp
  qed
  have m: "round_half_even y = (if r < 1 / 2 then f else if 1 / 2 < r then f + 1 else if even f then f else f + 1)"
    by (simp add: round_half_even_def Let_def f_def r_def)
  have step: "(1::rat) \<le> of_int (j - f)" if "f < j" for j
    using that by (metis of_int_1 of_int_le_iff zless_imp_add1_zle add.commute diff_add_cancel le_diff_eq)
  have step': "(1::rat) \<le> of_int (f - j)" if "j < f" for j
    using that by (metis of_int_1 of_int_le_iff zless_imp_add1_zle add.commute diff_add_cancel le_diff_eq)
  have step2: "(2::rat) \<le> of_int (j - f)" if "f + 1 < j" for j
  proof -
    from that have "2 \<le> j - f" by simp
    then have "(of_int 2 :: rat) \<le> of_int (j - f)" by (simp only: of_int_le_iff)
    then show ?thesis by simp
  qed
  have near: "\<bar>of_int (round_half_even y) - y\<bar> \<le> \<bar>of_int j - y\<bar>" for j :: int
  proof -
    consider "j < f" | "j = f" | "j = f + 1" | "f + 1 < j" by linarith
    then show ?thesis
    proof cases
      case 1
      with step' [of j] r show ?thesis unfolding far m by (auto split: if_splits)
    next
      case 2
      with r show ?thesis unfolding far m by (auto split: if_splits)
    next
      case 3
      with r show ?thesis unfolding far m by (auto split: if_splits)
    next
      case 4
      with step2 [of j] r show ?thesis unfolding far m by (auto split: if_splits)
    qed
  qed
  have tie: "even (round_half_even y)"
    if "j \<noteq> round_half_even y" "\<bar>of_int j - y\<bar> = \<bar>of_int (round_half_even y) - y\<bar>" for j :: int
  proof -
    consider "j < f" | "j = f" | "j = f + 1" | "f + 1 < j" by linarith
    then show ?thesis
    proof cases
      case 1
      with step' [of j] r that show ?thesis unfolding far m by (auto split: if_splits)
    next
      case 2
      with r that show ?thesis unfolding far m by (auto split: if_splits)
    next
      case 3
      with r that show ?thesis unfolding far m by (auto split: if_splits)
    next
      case 4
      with step2 [of j] r that show ?thesis unfolding far m by (auto split: if_splits)
    qed
  qed
  show ?thesis
    unfolding nearest_int_def using near tie by blast
qed

lemma power_int_two_less_imp: "(2::rat) powi a < 2 powi b \<Longrightarrow> a < b"
proof (rule ccontr)
  assume lt: "(2::rat) powi a < 2 powi b" and "\<not> a < b"
  then have "b \<le> a" by simp
  then have "(2::rat) powi b \<le> 2 powi a"
    by (rule power_int_increasing) simp
  with lt show False by simp
qed

lemma float64_shape:
  assumes "1 \<le> x"
  shows "2 powi int (ilog2 \<lfloor>x\<rfloor>) \<le> x"
    and "x < 2 powi (int (ilog2 \<lfloor>x\<rfloor>) + 1)"
    and "float64 x =
          of_int (round_half_even (x / 2 powi (int (ilog2 \<lfloor>x\<rfloor>) - 52))) *
          2 powi (int (ilog2 \<lfloor>x\<rfloor>) - 52)"
proof -
  let ?k = "ilog2 \<lfloor>x\<rfloor>"
  from assms have "1 \<le> \<lfloor>x\<rfloor>" by simp
  then have b: "2 ^ ?k \<le> \<lfloor>x\<rfloor>" "\<lfloor>x\<rfloor> < 2 ^ (?k + 1)"
    using ilog2_bounds [of "\<lfloor>x\<rfloor>"] by simp_all
  have "(of_int (2 ^ ?k) :: rat) \<le> of_int \<lfloor>x\<rfloor>"
    using b(1) by (simp only: of_int_le_iff)
  also have "\<dots> \<le> x" by simp
  finally show "2 powi int ?k \<le> x" by simp
  have "\<lfloor>x\<rfloor> + 1 \<le> 2 ^ (?k + 1)" using b(2) by simp
  then have "(of_int (\<lfloor>x\<rfloor> + 1) :: rat) \<le> of_int (2 ^ (?k + 1))"
    by (simp only: of_int_le_iff)
  moreover have "x < of_int (\<lfloor>x\<rfloor> + 1)" by linarith
  ultimately have "x < of_int (2 ^ (?k + 1))" by simp
  then have "x < 2 ^ (?k + 1)" by simp
  moreover have "(2::rat) powi (int ?k + 1) = 2 ^ (?k + 1)"
  proof -
    have "int ?k + 1 = int (?k + 1)" by simp
    then show ?thesis by (simp only: power_int_of_nat)
  qed
  ultimately show "x < 2 powi (int ?k + 1)" by simp
  have ulp: "(if 52 \<le> ?k then 2 ^ (?k - 52) else 1 / 2 ^ (52 - ?k)) = (2::rat) powi (int ?k - 52)"
  proof (cases "52 \<le> ?k")
    case True
    then have "int ?k - 52 = int (?k - 52)" by simp
    then show ?thesis using True by (simp only: power_int_of_nat if_True)
  next
    case False
    then have "int ?k - 52 = - int (52 - ?k)" by simp
    then have "(2::rat) powi (int ?k - 52) = inverse (2 powi int (52 - ?k))"
      by (simp only: power_int_minus)
    also have "\<dots> = 1 / 2 ^ (52 - ?k)"
      by (simp only: power_int_of_nat inverse_eq_divide)
    finally show ?thesis using False by (simp only: if_False)
  qed
  show "float64 x = of_int (round_half_even (x / 2 powi (int ?k - 52))) * 2 powi (int ?k - 52)"
    unfolding float64_def Let_def ulp ..
qed

lemma float64_nearest:
  assumes "1 \<le> x" and "x < 2 ^ 1023"
  shows "nearest_double x (float64 x)"
    and "2 powi int (ilog2 \<lfloor>x\<rfloor>) \<le> float64 x"
    and "float64 x \<le> 2 powi (int (ilog2 \<lfloor>x\<rfloor>) + 1)"
proof -
  define e where "e = int (ilog2 \<lfloor>x\<rfloor>)"
  define u :: rat where "u = 2 powi (e - 52)"
  define y where "y = x / u"
  define m where "m = round_half_even y"
  have lo: "2 powi e \<le> x" and hi: "x < 2 powi (e + 1)" and fl: "float64 x = of_int m * u"
    using float64_shape [OF assms(1)] by (simp_all add: e_def u_def y_def m_def)
  have u: "0 < u" by (simp add: u_def)
  have x: "x = y * u" using u by (simp add: y_def)
  have e0: "0 \<le> e" by (simp add: e_def)
  have "(2::rat) powi e < 2 powi 1023"
    using lo assms(2) by simp
  then have e1: "e < 1023" by (rule power_int_two_less_imp)
  have p52: "2 powi e = 2 ^ 52 * u"
  proof -
    have "e = 52 + (e - 52)" by simp
    then have "(2::rat) powi e = 2 powi (52 + (e - 52))" by (rule arg_cong)
    also have "\<dots> = 2 powi 52 * 2 powi (e - 52)"
      by (rule power_int_add) simp
    finally show ?thesis by (simp add: u_def)
  qed
  have p53: "2 powi (e + 1) = 2 ^ 53 * u"
  proof -
    have "e + 1 = 53 + (e - 52)" by simp
    then have "(2::rat) powi (e + 1) = 2 powi (53 + (e - 52))" by (rule arg_cong)
    also have "\<dots> = 2 powi 53 * 2 powi (e - 52)"
      by (rule power_int_add) simp
    finally show ?thesis by (simp add: u_def)
  qed
  have ylo: "2 ^ 52 \<le> y" and yhi: "y < 2 ^ 53"
    using lo hi u unfolding p52 p53 x by simp_all
  have near: "nearest_int y m"
    unfolding m_def by (rule round_half_even_nearest_int)
  have nearj: "\<bar>of_int m - y\<bar> \<le> \<bar>of_int j - y\<bar>" for j :: int
    using near unfolding nearest_int_def by blast
  have scale: "\<bar>of_int j * u - x\<bar> = \<bar>of_int j - y\<bar> * u" for j :: int
  proof -
    have "of_int j * u - x = (of_int j - y) * u"
      unfolding x by (simp add: algebra_simps)
    then show ?thesis using u by (simp add: abs_mult)
  qed
  have mlo: "2 ^ 52 \<le> m"
  proof (rule ccontr)
    assume "\<not> 2 ^ 52 \<le> m"
    then have "m + 1 \<le> 2 ^ 52" by simp
    then have "(of_int (m + 1) :: rat) \<le> of_int (2 ^ 52)" by (simp only: of_int_le_iff)
    then have "(of_int m :: rat) + 1 \<le> 2 ^ 52" by simp
    with ylo nearj [of "2 ^ 52"] show False by simp
  qed
  have mhi: "m \<le> 2 ^ 53"
  proof (rule ccontr)
    assume "\<not> m \<le> 2 ^ 53"
    then have "2 ^ 53 + 1 \<le> m" by simp
    then have "(of_int (2 ^ 53 + 1) :: rat) \<le> of_int m" by (simp only: of_int_le_iff)
    then have "(2 ^ 53 :: rat) + 1 \<le> of_int m" by simp
    with yhi nearj [of "2 ^ 53"] show False by simp
  qed
  have "(of_int (2 ^ 52) :: rat) \<le> of_int m" using mlo by (simp only: of_int_le_iff)
  then have mlo': "(2 ^ 52 :: rat) \<le> of_int m" by simp
  have "(of_int m :: rat) \<le> of_int (2 ^ 53)" using mhi by (simp only: of_int_le_iff)
  then have mhi': "(of_int m :: rat) \<le> 2 ^ 53" by simp
  show "2 powi int (ilog2 \<lfloor>x\<rfloor>) \<le> float64 x"
    using mlo' u unfolding fl e_def [symmetric] p52 by simp
  show "float64 x \<le> 2 powi (int (ilog2 \<lfloor>x\<rfloor>) + 1)"
    using mhi' u unfolding fl e_def [symmetric] p53 by simp
  have dbl: "is_double (of_int m * u)"
  proof (cases "m < 2 ^ 53")
    case True
    with mlo have "\<bar>m\<bar> < 2 ^ 53" by simp
    moreover have "- 1074 \<le> e - 52" "e - 52 \<le> 971" using e0 e1 by simp_all
    ultimately show ?thesis
      unfolding is_double_def u_def by blast
  next
    case False
    with mhi have m: "m = 2 ^ 53" by simp
    have "e - 51 = 1 + (e - 52)" by simp
    then have "(2::rat) powi (e - 51) = 2 powi (1 + (e - 52))" by (rule arg_cong)
    also have "\<dots> = 2 powi 1 * 2 powi (e - 52)"
      by (rule power_int_add) simp
    finally have "of_int m * u = of_int (2 ^ 52) * 2 powi (e - 51)"
      by (simp add: m u_def)
    moreover have "\<bar>2 ^ 52 :: int\<bar> < 2 ^ 53" by simp
    moreover have "- 1074 \<le> e - 51" "e - 51 \<le> 971" using e0 e1 by simp_all
    ultimately show ?thesis
      unfolding is_double_def by blast
  qed
  have multiple: "\<exists>j::int. d' = of_int j * u"
    if d': "is_double d'" and ge: "2 powi e \<le> d'" for d'
  proof -
    from d' obtain m' e' :: int where m': "\<bar>m'\<bar> < 2 ^ 53" and eq: "d' = of_int m' * 2 powi e'"
      unfolding is_double_def by blast
    have pos: "(0::rat) < 2 powi e'" by simp
    have "(0::rat) < 2 powi e" by simp
    also note ge
    finally have "0 < of_int m' * (2::rat) powi e'" unfolding eq .
    then have "(0::rat) < of_int m'" using pos by (rule zero_less_mult_pos2)
    have "m' < 2 ^ 53" using m' by simp
    then have "(of_int m' :: rat) < of_int (2 ^ 53)" by (simp only: of_int_less_iff)
    then have "(of_int m' :: rat) < 2 powi 53" by simp
    with pos have "of_int m' * 2 powi e' < 2 powi 53 * (2::rat) powi e'"
      by simp
    also have "\<dots> = 2 powi (53 + e')"
      by (rule power_int_add [symmetric]) simp
    finally have "(2::rat) powi e < 2 powi (53 + e')"
      using ge unfolding eq by simp
    then have "e < 53 + e'" by (rule power_int_two_less_imp)
    then have t: "0 \<le> e' - (e - 52)" by simp
    have "e' = (e' - (e - 52)) + (e - 52)" by simp
    then have "(2::rat) powi e' = 2 powi ((e' - (e - 52)) + (e - 52))" by (rule arg_cong)
    also have "\<dots> = 2 powi (e' - (e - 52)) * 2 powi (e - 52)"
      by (rule power_int_add) simp
    also have "\<dots> = 2 ^ nat (e' - (e - 52)) * u"
      using t by (simp add: power_int_def u_def)
    finally have "d' = of_int (m' * 2 ^ nat (e' - (e - 52))) * u"
      unfolding eq by simp
    then show ?thesis by blast
  qed
  have near_u: "\<bar>of_int m * u - x\<bar> \<le> \<bar>of_int j * u - x\<bar>" for j :: int
  proof -
    have "0 \<le> u" using u by simp
    with nearj [of j] have "\<bar>of_int m - y\<bar> * u \<le> \<bar>of_int j - y\<bar> * u"
      by (rule mult_right_mono)
    then show ?thesis by (simp only: scale)
  qed
  have below: "\<bar>of_int m * u - x\<bar> < \<bar>d' - x\<bar>" if "d' < 2 powi e" for d'
  proof -
    have "of_int (2 ^ 52) * u - x \<le> 0"
      using lo unfolding p52 by simp
    then have "\<bar>of_int (2 ^ 52) * u - x\<bar> = x - 2 powi e"
      unfolding p52 by simp
    with near_u [of "2 ^ 52"] have "\<bar>of_int m * u - x\<bar> \<le> x - 2 powi e"
      by (simp only:)
    also have "\<dots> < \<bar>d' - x\<bar>"
      using that lo by linarith
    finally show ?thesis .
  qed
  have nearest: "\<bar>of_int m * u - x\<bar> \<le> \<bar>d' - x\<bar>" if d': "is_double d'" for d'
  proof (cases "d' < 2 powi e")
    case True
    then show ?thesis using below [of d'] by simp
  next
    case False
    then obtain j :: int where j: "d' = of_int j * u"
      using multiple [OF d'] by auto
    show ?thesis
      unfolding j by (rule near_u)
  qed
  have tie: "even_double (of_int m * u)"
    if d': "is_double d'" and ne: "d' \<noteq> of_int m * u" and eq: "\<bar>d' - x\<bar> = \<bar>of_int m * u - x\<bar>" for d'
  proof -
    have "\<not> d' < 2 powi e" using below [of d'] eq by auto
    then obtain j :: int where j: "d' = of_int j * u"
      using multiple [OF d'] by auto
    from ne have "j \<noteq> m" unfolding j by auto
    moreover have "\<bar>of_int j - y\<bar> = \<bar>of_int m - y\<bar>"
    proof -
      have "\<bar>of_int j - y\<bar> * u = \<bar>of_int m - y\<bar> * u"
        using eq unfolding j by (simp only: scale)
      then show ?thesis using u by simp
    qed
    ultimately have "even m"
      using near unfolding nearest_int_def by blast
    moreover have "\<bar>m\<bar> \<le> 2 ^ 53" using mlo mhi by simp
    ultimately show ?thesis
      unfolding even_double_def u_def by blast
  qed
  show "nearest_double x (float64 x)"
    unfolding nearest_double_def fl using dbl nearest tie by blast
qed

lemma digit_char:
  fixes d :: int
  assumes "0 \<le> d" and "d < 10"
  shows "of_char (char_of (48 + d)) = 48 + d"
    and "CHR ''0'' \<le> char_of (48 + d)"
    and "char_of (48 + d) \<le> CHR ''9''"
proof -
  from assms have "(48 + d) mod 256 = 48 + d" by simp
  then show "of_char (char_of (48 + d)) = 48 + d"
    by (simp only: of_char_of)
  have "48 + d = int (48 + nat d)" using assms by simp
  then have c: "char_of (48 + d) = char_of (48 + nat d)"
    by (simp only: char_of_nat)
  have "(48 + nat d) mod 256 = 48 + nat d" using assms by simp
  then have n: "of_char (char_of (48 + d)) = 48 + nat d"
    unfolding c by (simp only: of_char_of)
  have z: "of_char CHR ''0'' = (48::nat)" and nine: "of_char CHR ''9'' = (57::nat)"
    by simp_all
  show "CHR ''0'' \<le> char_of (48 + d)"
    unfolding less_eq_char_def n z by simp
  show "char_of (48 + d) \<le> CHR ''9''"
    unfolding less_eq_char_def n nine using assms by simp
qed

lemma str_digits_decimal: "0 \<le> n \<Longrightarrow> decimal_of (str_digits n) n"
proof (induction n rule: str_digits.induct)
  case (1 n)
  show ?case
  proof (cases "n < 10")
    case True
    then have s: "str_digits n = [char_of (48 + n)]"
      by (subst str_digits.simps) simp
    show ?thesis
      unfolding s decimal_of_def
      using digit_char(1,2,3) [OF "1.prems" True] by simp
  next
    case False
    then have s: "str_digits n = str_digits (n div 10) @ [char_of (48 + n mod 10)]"
      by (subst str_digits.simps) simp
    from False have pos: "1 \<le> n div 10" by simp
    then have "decimal_of (str_digits (n div 10)) (n div 10)"
      using "1.IH" False by simp
    then have ne: "str_digits (n div 10) \<noteq> []"
      and dig: "\<forall>c \<in> set (str_digits (n div 10)). CHR ''0'' \<le> c \<and> c \<le> CHR ''9''"
      and lead: "hd (str_digits (n div 10)) = CHR ''0'' \<longrightarrow> str_digits (n div 10) = ''0''"
      and val: "foldl (\<lambda>a c. 10 * a + (of_char c - 48)) 0 (str_digits (n div 10)) = n div 10"
      unfolding decimal_of_def by simp_all
    have d: "0 \<le> n mod 10" "n mod 10 < 10" by simp_all
    have nolead: "hd (str_digits (n div 10)) \<noteq> CHR ''0''"
    proof
      assume "hd (str_digits (n div 10)) = CHR ''0''"
      with lead have "str_digits (n div 10) = ''0''" by simp
      with val have "n div 10 = 0" by simp
      with pos show False by simp
    qed
    have "foldl (\<lambda>a c. 10 * a + (of_char c - 48)) 0 (str_digits n) = 10 * (n div 10) + n mod 10"
      unfolding s using val digit_char(1) [OF d] by simp
    then have "foldl (\<lambda>a c. 10 * a + (of_char c - 48)) 0 (str_digits n) = n"
      by simp
    moreover have "hd (str_digits n) = hd (str_digits (n div 10))"
      unfolding s using ne by simp
    moreover have "\<forall>c \<in> set (str_digits n). CHR ''0'' \<le> c \<and> c \<le> CHR ''9''"
      unfolding s using dig digit_char(2,3) [OF d] by simp
    moreover have "str_digits n \<noteq> []"
      unfolding s by simp
    ultimately show ?thesis
      unfolding decimal_of_def using nolead by simp
  qed
qed

lemma round_half_even_nonneg: "0 \<le> y \<Longrightarrow> 0 \<le> round_half_even y"
proof -
  assume "0 \<le> y"
  then have "0 \<le> \<lfloor>y\<rfloor>" by simp
  then show ?thesis
    by (simp add: round_half_even_def Let_def)
qed

lemma fmt_1f_nearest:
  assumes "0 \<le> q"
  shows "\<exists>k s t. nearest_int (q * 10) k \<and> decimal_of s (k div 10) \<and> decimal_of t (k mod 10) \<and>
           fmt_1f q = s @ ''.'' @ t"
proof -
  let ?k = "round_half_even (q * 10)"
  have k: "0 \<le> ?k"
    using assms by (intro round_half_even_nonneg) simp
  then have "0 \<le> ?k div 10" "0 \<le> ?k mod 10"
    by simp_all
  then have "decimal_of (str_digits (?k div 10)) (?k div 10)"
    and "decimal_of (str_digits (?k mod 10)) (?k mod 10)"
    by (simp_all only: str_digits_decimal)
  moreover have "nearest_int (q * 10) ?k"
    by (rule round_half_even_nearest_int)
  moreover have "fmt_1f q = str_digits (?k div 10) @ ''.'' @ str_digits (?k mod 10)"
    by (simp add: fmt_1f_def Let_def)
  ultimately show ?thesis by blast
qed

lemma float64_ge_double:
  assumes "1 \<le> x" and "x < 2 ^ 1023" and "is_double c" and "c \<le> x"
  shows "c \<le> float64 x"
proof (rule ccontr)
  assume "\<not> c \<le> float64 x"
  then have "\<bar>c - x\<bar> < \<bar>float64 x - x\<bar>"
    using assms(4) by linarith
  moreover have "\<bar>float64 x - x\<bar> \<le> \<bar>c - x\<bar>"
    using float64_nearest(1) [OF assms(1,2)] assms(3) unfolding nearest_double_def by blast
  ultimately show False by simp
qed

lemma float64_le_double:
  assumes "1 \<le> x" and "x < 2 ^ 1023" and "is_double c" and "x \<le> c"
  shows "float64 x \<le> c"
proof (rule ccontr)
  assume "\<not> float64 x \<le> c"
  then have "\<bar>c - x\<bar> < \<bar>float64 x - x\<bar>"
    using assms(4) by linarith
  moreover have "\<bar>float64 x - x\<bar> \<le> \<bar>c - x\<bar>"
    using float64_nearest(1) [OF assms(1,2)] assms(3) unfolding nearest_double_def by blast
  ultimately show False by simp
qed

lemma is_double_int: "\<bar>c\<bar> < 2 ^ 53 \<Longrightarrow> is_double (of_int c)"
proof -
  assume "\<bar>c\<bar> < 2 ^ 53"
  moreover have "(of_int c :: rat) = of_int c * 2 powi 0" by simp
  moreover have "- 1074 \<le> (0::int)" "(0::int) \<le> 971" by simp_all
  ultimately show ?thesis unfolding is_double_def by blast
qed

lemma is_double_2_63: "is_double (2 ^ 63)"
proof -
  have "(2 ^ 63 :: rat) = of_int (2 ^ 52) * 2 powi 11" by simp
  moreover have "\<bar>2 ^ 52 :: int\<bar> < 2 ^ 53" by simp
  moreover have "- 1074 \<le> (11::int)" "(11::int) \<le> 971" by simp_all
  ultimately show ?thesis unfolding is_double_def by blast
qed

lemma float64_divisors: "float64 1000 = 1000" "float64 1000000 = 1000000"
  by code_simp+

lemma scaled_text:
  assumes n: "c \<le> n" "n < 2 ^ 63" and c: "0 < c" "c < 2 ^ 53" and fc: "float64 (of_int c) = of_int c"
  shows "\<exists>d q k s t. nearest_double (of_int n) d \<and> nearest_double (d / of_int c) q \<and>
           nearest_int (q * 10) k \<and> decimal_of s (k div 10) \<and> decimal_of t (k mod 10) \<and>
           fmt_1f (true_divide n c) = s @ ''.'' @ t"
proof -
  let ?x = "of_int n :: rat"
  let ?d = "float64 ?x"
  let ?q = "float64 (?d / of_int c)"
  have c1: "(1::rat) \<le> of_int c" using c(1) by simp
  have cpos: "(0::rat) < of_int c" using c(1) by simp
  have cx: "(of_int c :: rat) \<le> ?x" using n(1) by simp
  have big: "(2::rat) ^ 63 < 2 ^ 1023"
    by (rule power_strict_increasing) simp_all
  have x1: "1 \<le> ?x" using c1 cx by simp
  have "n + 1 \<le> 2 ^ 63" using n(2) by simp
  then have "(of_int (n + 1) :: rat) \<le> of_int (2 ^ 63)" by (simp only: of_int_le_iff)
  then have x63: "?x \<le> 2 ^ 63" by simp
  then have x2: "?x < 2 ^ 1023" using big by simp
  have nd: "nearest_double ?x ?d"
    using x1 x2 by (rule float64_nearest(1))
  have "\<bar>c\<bar> < 2 ^ 53" using c by simp
  then have "is_double (of_int c)" by (rule is_double_int)
  then have dlo: "of_int c \<le> ?d"
    using cx by (intro float64_ge_double [OF x1 x2])
  have dhi: "?d \<le> 2 ^ 63"
    using x63 by (intro float64_le_double [OF x1 x2] is_double_2_63)
  have y1: "1 \<le> ?d / of_int c"
    using dlo cpos by simp
  have "?d / of_int c \<le> ?d"
    using c1 dlo cpos by (simp add: divide_le_eq mult_le_cancel_left1)
  then have y2: "?d / of_int c < 2 ^ 1023"
    using dhi big by simp
  have nq: "nearest_double (?d / of_int c) ?q"
    using y1 y2 by (rule float64_nearest(1))
  have "(0::rat) < 2 powi int (ilog2 \<lfloor>?d / of_int c\<rfloor>)" by simp
  also have "\<dots> \<le> ?q"
    using y1 y2 by (rule float64_nearest(2))
  finally have "0 \<le> ?q" by simp
  then obtain k s t where "nearest_int (?q * 10) k" "decimal_of s (k div 10)"
    "decimal_of t (k mod 10)" "fmt_1f ?q = s @ ''.'' @ t"
    using fmt_1f_nearest [of ?q] by blast
  moreover have "true_divide n c = ?q"
    by (simp only: true_divide_def fc)
  ultimately show ?thesis
    using nd nq by metis
qed

text \<open>The specification determines each of its values.\<close>

lemma nearest_int_unique:
  assumes "nearest_int y k"
  shows "k = round_half_even y"
proof (rule ccontr)
  let ?m = "round_half_even y"
  assume ne: "k \<noteq> ?m"
  have m: "nearest_int y ?m" by (rule round_half_even_nearest_int)
  have "\<bar>of_int k - y\<bar> \<le> \<bar>of_int ?m - y\<bar>" "\<bar>of_int ?m - y\<bar> \<le> \<bar>of_int k - y\<bar>"
    using assms m unfolding nearest_int_def by blast+
  then have eq: "\<bar>of_int k - y\<bar> = \<bar>of_int ?m - y\<bar>" by simp
  have "\<exists>j. j \<noteq> k \<and> \<bar>of_int j - y\<bar> = \<bar>of_int k - y\<bar>"
    using ne eq by (intro exI [of _ ?m]) simp
  then have "even k" using assms unfolding nearest_int_def by simp
  moreover have "even ?m" using m ne eq unfolding nearest_int_def by blast
  moreover have "\<bar>(of_int k :: rat) - of_int ?m\<bar> \<le> 1"
    using eq round_half_even_nearest [of y] by linarith
  then have "\<bar>(of_int (k - ?m) :: rat)\<bar> \<le> of_int 1" by simp
  then have "\<bar>k - ?m\<bar> \<le> 1"
    by (simp only: of_int_abs [symmetric] of_int_le_iff)
  then have "k = ?m + 1 \<or> k = ?m - 1" using ne by linarith
  ultimately show False by auto
qed

lemma double_multiple:
  assumes d': "is_double d'" and ge: "2 powi e \<le> d'"
  shows "\<exists>j::int. d' = of_int j * 2 powi (e - 52)"
proof -
  from d' obtain m' e' :: int where m': "\<bar>m'\<bar> < 2 ^ 53" and eq: "d' = of_int m' * 2 powi e'"
    unfolding is_double_def by blast
  have pos: "(0::rat) < 2 powi e'" by simp
  have "(0::rat) < 2 powi e" by simp
  also note ge
  finally have "0 < of_int m' * (2::rat) powi e'" unfolding eq .
  then have "(0::rat) < of_int m'" using pos by (rule zero_less_mult_pos2)
  have "m' < 2 ^ 53" using m' by simp
  then have "(of_int m' :: rat) < of_int (2 ^ 53)" by (simp only: of_int_less_iff)
  then have "(of_int m' :: rat) < 2 powi 53" by simp
  with pos have "of_int m' * 2 powi e' < 2 powi 53 * (2::rat) powi e'"
    by simp
  also have "\<dots> = 2 powi (53 + e')"
    by (rule power_int_add [symmetric]) simp
  finally have "(2::rat) powi e < 2 powi (53 + e')"
    using ge unfolding eq by simp
  then have "e < 53 + e'" by (rule power_int_two_less_imp)
  then have t: "0 \<le> e' - (e - 52)" by simp
  have "e' = (e' - (e - 52)) + (e - 52)" by simp
  then have "(2::rat) powi e' = 2 powi ((e' - (e - 52)) + (e - 52))" by (rule arg_cong)
  also have "\<dots> = 2 powi (e' - (e - 52)) * 2 powi (e - 52)"
    by (rule power_int_add) simp
  also have "\<dots> = 2 ^ nat (e' - (e - 52)) * 2 powi (e - 52)"
    using t by (simp add: power_int_def)
  finally have "d' = of_int (m' * 2 ^ nat (e' - (e - 52))) * 2 powi (e - 52)"
    unfolding eq by simp
  then show ?thesis by blast
qed

lemma nearest_double_unique:
  assumes x: "1 \<le> x" "x < 2 ^ 1023" and d: "nearest_double x d"
  shows "d = float64 x"
proof (rule ccontr)
  define e where "e = int (ilog2 \<lfloor>x\<rfloor>)"
  define u :: rat where "u = 2 powi (e - 52)"
  define y where "y = x / u"
  define m where "m = round_half_even y"
  assume ne: "d \<noteq> float64 x"
  have lo: "2 powi e \<le> x" and fl: "float64 x = of_int m * u"
    using float64_shape [OF x(1)] by (simp_all add: e_def u_def y_def m_def)
  have u: "0 < u" by (simp add: u_def)
  have xy: "x = y * u" using u by (simp add: y_def)
  have e0: "0 \<le> e" by (simp add: e_def)
  have "(2::rat) powi e < 2 powi 1023" using lo x(2) by simp
  then have e1: "e < 1023" by (rule power_int_two_less_imp)
  have f: "nearest_double x (float64 x)" using x by (rule float64_nearest(1))
  have "\<bar>d - x\<bar> \<le> \<bar>float64 x - x\<bar>" "\<bar>float64 x - x\<bar> \<le> \<bar>d - x\<bar>"
    using d f unfolding nearest_double_def by blast+
  then have eq: "\<bar>d - x\<bar> = \<bar>float64 x - x\<bar>" by simp
  have ev: "even_double d"
    using d f ne eq [symmetric] unfolding nearest_double_def by blast
  have p52: "2 powi e = 2 ^ 52 * u"
  proof -
    have "e = 52 + (e - 52)" by simp
    then have "(2::rat) powi e = 2 powi (52 + (e - 52))" by (rule arg_cong)
    also have "\<dots> = 2 powi 52 * 2 powi (e - 52)"
      by (rule power_int_add) simp
    finally show ?thesis by (simp add: u_def)
  qed
  have dbl_e: "is_double (2 powi e)"
  proof -
    have "\<bar>2 ^ 52 :: int\<bar> < 2 ^ 53" by simp
    moreover have "- 1074 \<le> e - 52" "e - 52 \<le> 971" using e0 e1 by simp_all
    moreover have "(2::rat) powi e = of_int (2 ^ 52) * 2 powi (e - 52)"
      using p52 by (simp add: u_def)
    ultimately show ?thesis unfolding is_double_def by blast
  qed
  have dge: "2 powi e \<le> d"
  proof (rule ccontr)
    assume "\<not> 2 powi e \<le> d"
    then have "\<bar>2 powi e - x\<bar> < \<bar>d - x\<bar>" using lo by linarith
    moreover have "\<bar>d - x\<bar> \<le> \<bar>2 powi e - x\<bar>"
      using d dbl_e unfolding nearest_double_def by blast
    ultimately show False by simp
  qed
  obtain j :: int where j: "d = of_int j * u"
    using double_multiple [OF _ dge] d unfolding nearest_double_def u_def by blast
  have jm: "j \<noteq> m" using ne unfolding j fl by auto
  have scale: "\<bar>of_int i * u - x\<bar> = \<bar>of_int i - y\<bar> * u" for i :: int
  proof -
    have "of_int i * u - x = (of_int i - y) * u"
      unfolding xy by (simp add: algebra_simps)
    then show ?thesis using u by (simp add: abs_mult)
  qed
  have "\<bar>of_int j - y\<bar> * u = \<bar>of_int m - y\<bar> * u"
    using eq unfolding j fl by (simp only: scale)
  then have tie: "\<bar>of_int j - y\<bar> = \<bar>of_int m - y\<bar>" using u by simp
  have near: "nearest_int y m" unfolding m_def by (rule round_half_even_nearest_int)
  have evm: "even m" using near jm tie unfolding nearest_int_def by blast
  have "\<bar>(of_int j :: rat) - of_int m\<bar> \<le> 1"
    using tie round_half_even_nearest [of y] unfolding m_def by linarith
  then have "\<bar>(of_int (j - m) :: rat)\<bar> \<le> of_int 1" by simp
  then have "\<bar>j - m\<bar> \<le> 1"
    by (simp only: of_int_abs [symmetric] of_int_le_iff)
  then have "j = m + 1 \<or> j = m - 1" using jm by linarith
  then have oddj: "odd j" using evm by auto
  have "2 ^ 52 * u \<le> of_int j * u" using dge unfolding p52 j .
  then have "(2 ^ 52 :: rat) \<le> of_int j" using u by simp
  then have "(of_int (2 ^ 52) :: rat) \<le> of_int j" by simp
  then have "2 ^ 52 \<le> j" by (simp only: of_int_le_iff)
  moreover have "j \<noteq> 2 ^ 52" using oddj by auto
  ultimately have jbig: "2 ^ 52 + 1 \<le> j" by linarith
  from ev obtain m' e' :: int where evm': "even m'" and m'b: "\<bar>m'\<bar> \<le> 2 ^ 53"
    and deq: "d = of_int m' * 2 powi e'"
    unfolding even_double_def by blast
  show False
  proof (cases "e - 52 \<le> e'")
    case True
    then have t: "0 \<le> e' - (e - 52)" by simp
    have "e' = (e' - (e - 52)) + (e - 52)" by simp
    then have "(2::rat) powi e' = 2 powi ((e' - (e - 52)) + (e - 52))" by (rule arg_cong)
    also have "\<dots> = 2 powi (e' - (e - 52)) * 2 powi (e - 52)"
      by (rule power_int_add) simp
    also have "\<dots> = 2 ^ nat (e' - (e - 52)) * u"
      using t by (simp add: power_int_def u_def)
    finally have "of_int j * u = of_int (m' * 2 ^ nat (e' - (e - 52))) * u"
      using deq unfolding j by simp
    then have "(of_int j :: rat) = of_int (m' * 2 ^ nat (e' - (e - 52)))"
      using u by simp
    then have "j = m' * 2 ^ nat (e' - (e - 52))"
      by (simp only: of_int_eq_iff)
    then have "even j" using evm' by simp
    with oddj show False by simp
  next
    case False
    then have t: "1 \<le> (e - 52) - e'" by simp
    define s where "s = nat ((e - 52) - e' - 1)"
    have "e - 52 = (1 + int s) + e'" using t by (simp add: s_def)
    then have "(2::rat) powi (e - 52) = 2 powi ((1 + int s) + e')" by (rule arg_cong)
    also have "\<dots> = 2 powi (1 + int s) * 2 powi e'"
      by (rule power_int_add) simp
    also have "(2::rat) powi (1 + int s) = 2 * 2 ^ s"
      by (simp add: power_int_add)
    finally have "u = 2 * 2 ^ s * 2 powi e'" by (simp add: u_def)
    then have "of_int (j * (2 * 2 ^ s)) * (2::rat) powi e' = of_int m' * 2 powi e'"
      using deq unfolding j by simp
    then have "(of_int (j * (2 * 2 ^ s)) :: rat) = of_int m'"
      by simp
    then have m'eq: "m' = j * (2 * 2 ^ s)"
      by (simp only: of_int_eq_iff)
    have "(1::int) \<le> 2 ^ s" by simp
    then have "2 * j \<le> j * (2 * 2 ^ s)"
      using jbig by (simp add: mult_le_cancel_left1)
    moreover have "2 * (2 ^ 52 + 1) \<le> 2 * j" using jbig by simp
    ultimately have "2 * (2 ^ 52 + 1) \<le> m'" unfolding m'eq by (rule order_trans [rotated])
    with m'b show False by simp
  qed
qed

lemma digit_of_char:
  assumes "CHR ''0'' \<le> c" and "c \<le> CHR ''9''"
  shows "(48::int) \<le> of_char c" and "of_char c \<le> (57::int)"
proof -
  have z: "of_char CHR ''0'' = (48::nat)" and nine: "of_char CHR ''9'' = (57::nat)"
    by simp_all
  have "(48::nat) \<le> of_char c" "of_char c \<le> (57::nat)"
    using assms unfolding less_eq_char_def z nine by simp_all
  then have "int 48 \<le> int (of_char c)" "int (of_char c) \<le> int 57"
    by (simp_all only: of_nat_le_iff)
  then show "(48::int) \<le> of_char c" and "of_char c \<le> (57::int)"
    by (simp_all add: of_nat_of_char)
qed

lemma str_digits_0: "str_digits 0 = ''0''"
  by code_simp

lemma decimal_value_nonneg:
  "\<forall>c \<in> set s. CHR ''0'' \<le> c \<and> c \<le> CHR ''9'' \<Longrightarrow>
     0 \<le> foldl (\<lambda>a c. 10 * a + (of_char c - 48)) (0::int) s"
proof (induction s rule: rev_induct)
  case Nil
  then show ?case by simp
next
  case (snoc c s)
  then have "0 \<le> foldl (\<lambda>a c. 10 * a + (of_char c - 48)) (0::int) s" by simp
  moreover have "(48::int) \<le> of_char c"
    using snoc.prems by (intro digit_of_char(1)) simp_all
  ultimately show ?case by simp
qed

lemma decimal_of_unique: "decimal_of s n \<Longrightarrow> s = str_digits n"
proof (induction s arbitrary: n rule: rev_induct)
  case Nil
  then show ?case by (simp add: decimal_of_def)
next
  case (snoc c xs)
  let ?v = "foldl (\<lambda>a c. 10 * a + (of_char c - 48)) (0::int)"
  from snoc.prems have dig: "\<forall>c \<in> set (xs @ [c]). CHR ''0'' \<le> c \<and> c \<le> CHR ''9''"
    and lead: "hd (xs @ [c]) = CHR ''0'' \<longrightarrow> xs @ [c] = ''0''"
    and val: "?v (xs @ [c]) = n"
    unfolding decimal_of_def by simp_all
  have c: "(48::int) \<le> of_char c" "of_char c \<le> (57::int)"
    using dig by (simp_all add: digit_of_char)
  define d :: int where "d = of_char c - 48"
  have d: "0 \<le> d" "d < 10" using c by (simp_all add: d_def)
  have cd: "char_of (48 + d) = c" by (simp add: d_def)
  have n: "n = 10 * ?v xs + d" using val by (simp add: d_def)
  have vx: "0 \<le> ?v xs" using dig by (intro decimal_value_nonneg) simp
  have nmod: "n mod 10 = d" and ndiv: "n div 10 = ?v xs"
    using d vx unfolding n by simp_all
  show ?case
  proof (cases "xs = []")
    case True
    then have "n = d" using n by simp
    then have "str_digits n = [char_of (48 + d)]"
      using d by (subst str_digits.simps) simp
    then show ?thesis using True cd by simp
  next
    case False
    then have hd: "hd (xs @ [c]) = hd xs" by simp
    have "xs @ [c] \<noteq> ''0''" using False by simp
    with lead hd have nz: "hd xs \<noteq> CHR ''0''" by simp
    have "decimal_of xs (n div 10)"
      unfolding decimal_of_def using False dig nz ndiv by simp
    then have xs: "xs = str_digits (n div 10)" by (rule snoc.IH)
    have "n div 10 \<noteq> 0"
    proof
      assume "n div 10 = 0"
      then have "xs = ''0''" using xs by (simp only: str_digits_0)
      with nz show False by simp
    qed
    then have "\<not> n < 10" using vx ndiv by simp
    then have "str_digits n = str_digits (n div 10) @ [char_of (48 + n mod 10)]"
      by (subst str_digits.simps) simp
    then show ?thesis using xs nmod cd by simp
  qed
qed

lemma scaled_bounds:
  assumes n: "c \<le> n" "n < 2 ^ 63" and c: "0 < c" "c < 2 ^ 53"
  shows "(1::rat) \<le> of_int n" and "(of_int n :: rat) < 2 ^ 1023"
    and "1 \<le> float64 (of_int n) / of_int c" and "float64 (of_int n) / of_int c < 2 ^ 1023"
proof -
  let ?x = "of_int n :: rat"
  let ?d = "float64 ?x"
  have c1: "(1::rat) \<le> of_int c" using c(1) by simp
  have cpos: "(0::rat) < of_int c" using c(1) by simp
  have cx: "(of_int c :: rat) \<le> ?x" using n(1) by simp
  have big: "(2::rat) ^ 63 < 2 ^ 1023"
    by (rule power_strict_increasing) simp_all
  show x1: "1 \<le> ?x" using c1 cx by simp
  have "n + 1 \<le> 2 ^ 63" using n(2) by simp
  then have "(of_int (n + 1) :: rat) \<le> of_int (2 ^ 63)" by (simp only: of_int_le_iff)
  then have x63: "?x \<le> 2 ^ 63" by simp
  then show x2: "?x < 2 ^ 1023" using big by simp
  have "\<bar>c\<bar> < 2 ^ 53" using c by simp
  then have "is_double (of_int c)" by (rule is_double_int)
  then have dlo: "of_int c \<le> ?d"
    using cx by (intro float64_ge_double [OF x1 x2])
  have dhi: "?d \<le> 2 ^ 63"
    using x63 by (intro float64_le_double [OF x1 x2] is_double_2_63)
  show "1 \<le> ?d / of_int c"
    using dlo cpos by simp
  have "?d / of_int c \<le> ?d"
    using c1 dlo cpos by (simp add: divide_le_eq mult_le_cancel_left1)
  then show "?d / of_int c < 2 ^ 1023"
    using dhi big by simp
qed

lemma prints_scaled_fmt_1f:
  assumes n: "c \<le> n" "n < 2 ^ 63" and c: "0 < c" "c < 2 ^ 53" and fc: "float64 (of_int c) = of_int c"
  shows "prints_scaled n c out \<longleftrightarrow> out = fmt_1f (true_divide n c)"
proof
  assume "out = fmt_1f (true_divide n c)"
  then show "prints_scaled n c out"
    using scaled_text [OF n c fc] unfolding prints_scaled_def by simp
next
  assume "prints_scaled n c out"
  then obtain d q k s t where d: "nearest_double (of_int n) d"
    and q: "nearest_double (d / of_int c) q" and k: "nearest_int (q * 10) k"
    and s: "decimal_of s (k div 10)" and t: "decimal_of t (k mod 10)" and out: "out = s @ ''.'' @ t"
    unfolding prints_scaled_def by blast
  note b = scaled_bounds [OF n c]
  have "d = float64 (of_int n)"
    using b(1,2) d by (rule nearest_double_unique)
  then have "q = float64 (float64 (of_int n) / of_int c)"
    using nearest_double_unique [OF b(3,4)] q by simp
  then have q': "q = true_divide n c"
    by (simp only: true_divide_def fc)
  have "k = round_half_even (q * 10)"
    using k by (rule nearest_int_unique)
  moreover have "s = str_digits (k div 10)" "t = str_digits (k mod 10)"
    using decimal_of_unique [OF s] decimal_of_unique [OF t] by simp_all
  ultimately show "out = fmt_1f (true_divide n c)"
    unfolding out q' by (simp add: fmt_1f_def Let_def)
qed

text \<open>
  C8: for a number below \<open>2 ^ 63\<close>, \<^verbatim>\<open>format_num\<close> prints, from one million on, the
  text of the quotient by one million under \<^verbatim>\<open>.1f\<close> and the letter M, and from one
  thousand on, the text of the quotient by one thousand under \<^verbatim>\<open>.1f\<close> and the letter
  K; a smaller number is printed as its decimal numeral, with a minus sign below zero. In
  each case the text is one that the specification of the formatting allows, and it
  allows no other. 999 gives \<^verbatim>\<open>999\<close>, 1000 gives \<^verbatim>\<open>1.0K\<close>, 1500000 gives \<^verbatim>\<open>1.5M\<close>; 1050,
  2050, 1999 and 999950, whose quotients are rounded, give \<^verbatim>\<open>1.1K\<close>, \<^verbatim>\<open>2.0K\<close>,
  \<^verbatim>\<open>2.0K\<close> and \<^verbatim>\<open>1000.0K\<close>; 1250, a tie, gives \<^verbatim>\<open>1.2K\<close>; and the greatest value of
  an \<^verbatim>\<open>int64\<close> gives \<^verbatim>\<open>9223372036854.8M\<close>.
\<close>
theorem format_num_cases:
  "(1000000 \<le> n \<and> n < 2 ^ 63 \<longrightarrow>
      (\<exists>out. prints_scaled n 1000000 out \<and> format_num n = out @ ''M'') \<and>
      (\<forall>out. prints_scaled n 1000000 out \<longrightarrow> format_num n = out @ ''M'')) \<and>
   (1000 \<le> n \<and> n < 1000000 \<longrightarrow>
      (\<exists>out. prints_scaled n 1000 out \<and> format_num n = out @ ''K'') \<and>
      (\<forall>out. prints_scaled n 1000 out \<longrightarrow> format_num n = out @ ''K'')) \<and>
   (0 \<le> n \<and> n < 1000 \<longrightarrow>
      decimal_of (format_num n) n \<and> (\<forall>out. decimal_of out n \<longrightarrow> format_num n = out)) \<and>
   (n < 0 \<longrightarrow>
      (\<exists>out. decimal_of out (- n) \<and> format_num n = CHR ''-'' # out) \<and>
      (\<forall>out. decimal_of out (- n) \<longrightarrow> format_num n = CHR ''-'' # out)) \<and>
   format_num 999 = ''999'' \<and> format_num 1000 = ''1.0K'' \<and> format_num 1500000 = ''1.5M'' \<and>
   format_num 1050 = ''1.1K'' \<and> format_num 2050 = ''2.0K'' \<and> format_num 1999 = ''2.0K'' \<and>
   format_num 999950 = ''1000.0K'' \<and> format_num 1250 = ''1.2K'' \<and>
   format_num 9223372036854775807 = ''9223372036854.8M''"
proof -
  have m: "prints_scaled n 1000000 out \<longleftrightarrow> format_num n = out @ ''M''"
    if "1000000 \<le> n" "n < 2 ^ 63" for out
  proof -
    have "float64 (of_int 1000000) = of_int 1000000"
      using float64_divisors(2) by simp
    then have "prints_scaled n 1000000 out \<longleftrightarrow> out = fmt_1f (true_divide n 1000000)"
      using that by (intro prints_scaled_fmt_1f) simp_all
    moreover have "format_num n = fmt_1f (true_divide n 1000000) @ ''M''"
      using that by (simp add: format_num_def)
    ultimately show ?thesis by auto
  qed
  have k: "prints_scaled n 1000 out \<longleftrightarrow> format_num n = out @ ''K''"
    if "1000 \<le> n" "n < 1000000" for out
  proof -
    have "float64 (of_int 1000) = of_int 1000"
      using float64_divisors(1) by simp
    then have "prints_scaled n 1000 out \<longleftrightarrow> out = fmt_1f (true_divide n 1000)"
      using that by (intro prints_scaled_fmt_1f) simp_all
    moreover have "format_num n = fmt_1f (true_divide n 1000) @ ''K''"
      using that by (simp add: format_num_def)
    ultimately show ?thesis by auto
  qed
  have small: "decimal_of out n \<longleftrightarrow> format_num n = out" if "0 \<le> n" "n < 1000" for out
  proof -
    have "format_num n = str_digits n"
      using that by (simp add: format_num_def str_int_def)
    then show ?thesis
      using str_digits_decimal [OF that(1)] decimal_of_unique [of out n] by auto
  qed
  have neg: "decimal_of out (- n) \<longleftrightarrow> format_num n = CHR ''-'' # out" if "n < 0" for out
  proof -
    have "format_num n = CHR ''-'' # str_digits (- n)"
      using that by (simp add: format_num_def str_int_def)
    moreover have "0 \<le> - n" using that by simp
    ultimately show ?thesis
      using str_digits_decimal [of "- n"] decimal_of_unique [of out "- n"] by auto
  qed
  have v1: "format_num 999 = ''999''" by code_simp
  have v2: "format_num 1000 = ''1.0K''" by code_simp
  have v3: "format_num 1500000 = ''1.5M''" by code_simp
  have v4: "format_num 1050 = ''1.1K''" by code_simp
  have v5: "format_num 2050 = ''2.0K''" by code_simp
  have v6: "format_num 1999 = ''2.0K''" by code_simp
  have v7: "format_num 999950 = ''1000.0K''" by code_simp
  have v8: "format_num 1250 = ''1.2K''" by code_simp
  have v9: "format_num 9223372036854775807 = ''9223372036854.8M''" by code_simp
  have c1: "(\<exists>out. prints_scaled n 1000000 out \<and> format_num n = out @ ''M'') \<and>
      (\<forall>out. prints_scaled n 1000000 out \<longrightarrow> format_num n = out @ ''M'')"
    if "1000000 \<le> n \<and> n < 2 ^ 63"
  proof -
    have "format_num n = fmt_1f (true_divide n 1000000) @ ''M''"
      using that by (simp add: format_num_def)
    then show ?thesis using m that by blast
  qed
  have c2: "(\<exists>out. prints_scaled n 1000 out \<and> format_num n = out @ ''K'') \<and>
      (\<forall>out. prints_scaled n 1000 out \<longrightarrow> format_num n = out @ ''K'')"
    if "1000 \<le> n \<and> n < 1000000"
  proof -
    have "format_num n = fmt_1f (true_divide n 1000) @ ''K''"
      using that by (simp add: format_num_def)
    then show ?thesis using k that by blast
  qed
  have c3: "decimal_of (format_num n) n \<and> (\<forall>out. decimal_of out n \<longrightarrow> format_num n = out)"
    if "0 \<le> n \<and> n < 1000"
    using small that by blast
  have c4: "(\<exists>out. decimal_of out (- n) \<and> format_num n = CHR ''-'' # out) \<and>
      (\<forall>out. decimal_of out (- n) \<longrightarrow> format_num n = CHR ''-'' # out)"
    if "n < 0"
  proof -
    have "format_num n = CHR ''-'' # str_digits (- n)"
      using that by (simp add: format_num_def str_int_def)
    then show ?thesis using neg that by blast
  qed
  show ?thesis
    by (intro conjI impI) (use c1 c2 c3 c4 v1 v2 v3 v4 v5 v6 v7 v8 v9 in blast)+
qed

theorem format_num_cases_witness:
  "prints_scaled 2050 1000 ''2.0'' \<and> format_num 2050 = ''2.0K'' \<and>
   prints_scaled 2000000 1000000 ''2.0'' \<and> format_num 2000000 = ''2.0M'' \<and>
   decimal_of ''7'' 7 \<and> format_num 7 = ''7'' \<and>
   decimal_of ''5'' 5 \<and> format_num (- 5) = ''-5''"
proof -
  have a: "format_num 2050 = ''2.0'' @ ''K''" by code_simp
  have b: "format_num 2000000 = ''2.0'' @ ''M''" by code_simp
  have c: "format_num 7 = ''7''" by code_simp
  have d: "format_num (- 5) = CHR ''-'' # ''5''" by code_simp
  have 1: "prints_scaled 2050 1000 ''2.0''"
    using format_num_cases [of 2050] a by auto
  have 2: "prints_scaled 2000000 1000000 ''2.0''"
    using format_num_cases [of 2000000] b by auto
  have 3: "decimal_of ''7'' 7"
    using format_num_cases [of 7] c by auto
  have 4: "decimal_of ''5'' 5"
    using format_num_cases [of "- 5"] d by auto
  show ?thesis using 1 2 3 4 a b c d by simp
qed


end
